theory Spec2Isabelle
  imports Main "HOL-Library.AList"
begin

section \<open>Data model\<close>

text \<open>
  The notebook \<^verbatim>\<open>examples/reflexion/reflexion.ipynb\<close> works on a list of chat
  messages. A message is a human message, a model-generated message (which carries the
  tool calls the model asked for), a tool message (the result of one tool call identifier)
  or a message of another kind (a system message).

  A parsed tool call is the dictionary \<^verbatim>\<open>{"type": ..., "args": ..., "id": ...}\<close> that
  \<^verbatim>\<open>JsonOutputToolsParser(return_id=True)\<close> yields. Of the arguments only the key
  \<^verbatim>\<open>"search_queries"\<close> is read by the code; it is \<open>None\<close> when the key is absent
  (the subscript then raises \<^verbatim>\<open>KeyError\<close>) and otherwise the list of query strings
  at the type the schema declares (\<^verbatim>\<open>List[str]\<close>).
\<close>

datatype exn =
    ValidationError string
  | ValueError string
  | KeyError string
  | IndexError string
  | OtherException string

fun repr :: "exn \<Rightarrow> string" where
  "repr (ValidationError d) = d"
| "repr (ValueError d) = d"
| "repr (KeyError d) = d"
| "repr (IndexError d) = d"
| "repr (OtherException d) = d"

fun is_ValidationError :: "exn \<Rightarrow> bool" where
  "is_ValidationError (ValidationError d) = True"
| "is_ValidationError e = False"

text \<open>
  What one lookup of the search tool yields: a list of result records (url and content),
  or the description of a failure, handed back as a value.
\<close>

datatype tool_output = SearchResults "(string \<times> string) list" | SearchError string

datatype args = Args (search_queries: "string list option")

datatype parsed_call =
  ParsedCall (call_type: string) (call_args: args) (call_id: string)

datatype ai_message = AI (content: string) (tool_calls: "parsed_call list")

text \<open>
  \<^verbatim>\<open>ToolMessage(content=json.dumps(query_outputs), tool_call_id=tid)\<close>: the content is
  kept as the dictionary that is serialised, an association list in insertion order.
\<close>

datatype message =
    HumanMessage string
  | AIMessage ai_message
  | ToolMessage "(string \<times> tool_output) list" string
  | SystemMessage string

fun tool_call_id :: "message \<Rightarrow> string option" where
  "tool_call_id (ToolMessage query_outputs tid) = Some tid"
| "tool_call_id m = None"

fun tool_content :: "message \<Rightarrow> (string \<times> tool_output) list" where
  "tool_content (ToolMessage query_outputs tid) = query_outputs"
| "tool_content m = []"

section \<open>Looping logic of the graph\<close>

text \<open>
  \<^verbatim>\<open>
  MAX_ITERATIONS = 5

  def _get_num_iterations(state: List[BaseMessage]):
      i = 0
      for m in state[::-1]:
          if not isinstance(m, (ToolMessage, AIMessage)):
              break
          i += 1
      return i

  def event_loop(state: List[BaseMessage]) -> str:
      num_iterations = _get_num_iterations(state)
      if num_iterations > MAX_ITERATIONS:
          return END
      return "execute_tools"
  \<close>
\<close>

datatype node = Draft | ExecuteTools | Revise | END

definition MAX_ITERATIONS :: nat where
  "MAX_ITERATIONS = 5"

fun isinstance_Tool_AI :: "message \<Rightarrow> bool" where
  "isinstance_Tool_AI (ToolMessage query_outputs tid) = True"
| "isinstance_Tool_AI (AIMessage r) = True"
| "isinstance_Tool_AI m = False"

fun num_iterations_loop :: "message list \<Rightarrow> nat \<Rightarrow> nat" where
  "num_iterations_loop [] i = i"
| "num_iterations_loop (m # ms) i =
     (if \<not> isinstance_Tool_AI m then i else num_iterations_loop ms (i + 1))"

definition get_num_iterations :: "message list \<Rightarrow> nat" where
  "get_num_iterations state = num_iterations_loop (rev state) 0"

definition event_loop :: "message list \<Rightarrow> node" where
  "event_loop state =
     (let num_iterations = get_num_iterations state
      in if num_iterations > MAX_ITERATIONS then END else ExecuteTools)"

section \<open>The outside world\<close>

text \<open>
  The generative backend and the search tool are outside the notebook. Their state (what
  they will answer next) is a value of an arbitrary type \<open>'e\<close>, threaded through every
  call, so that the same request can be answered differently each time. Beside it the
  world records the outbound calls made so far: the message list of every call to the
  generative backend and the input of every lookup of the search tool.
\<close>

record 'e world =
  env :: 'e
  completions :: "message list list"
  lookups :: "string list"

type_synonym 'e runnable_fn = "message list \<Rightarrow> 'e \<Rightarrow> (exn + ai_message) \<times> 'e"

type_synonym validator_fn = "ai_message \<Rightarrow> exn option"

type_synonym 'e search_fn = "string \<Rightarrow> 'e \<Rightarrow> tool_output \<times> 'e"

section \<open>Tool execution\<close>

text \<open>
  \<^verbatim>\<open>
  def execute_tools(state: List[BaseMessage]) -> List[BaseMessage]:
      tool_invocation: AIMessage = state[-1]
      parsed_tool_calls = parser.invoke(tool_invocation)
      ids = []
      tool_invocations = []
      for parsed_call in parsed_tool_calls:
          for query in parsed_call["args"]["search_queries"]:
              tool_invocations.append(
                  ToolInvocation(
                      tool="tavily_search_results_json",
                      tool_input=query,
                  )
              )
              ids.append(parsed_call["id"])

      outputs = tool_executor.batch(tool_invocations)
      outputs_map = defaultdict(dict)
      for id_, output, invocation in zip(ids, outputs, tool_invocations):
          outputs_map[id_][invocation.tool_input] = output

      return [
          ToolMessage(content=json.dumps(query_outputs), tool_call_id=id_)
          for id_, query_outputs in outputs_map.items()
      ]
  \<close>
  A Python dictionary keeps its keys in insertion order and assigning to a key that is
  present replaces the value in place: that is \<open>AList.update\<close> on an association list.
\<close>

record ToolInvocation =
  tool :: string
  tool_input :: string

text \<open>
  The parser reads the tool calls that the message carries, their arguments already
  parsed; a message without tool calls gives the empty list.
\<close>

fun parser_invoke :: "message \<Rightarrow> parsed_call list" where
  "parser_invoke (AIMessage r) = tool_calls r"
| "parser_invoke m = []"

fun query_loop ::
  "string \<Rightarrow> string list \<Rightarrow> string list \<times> ToolInvocation list
     \<Rightarrow> string list \<times> ToolInvocation list" where
  "query_loop cid [] (ids, tool_invocations) = (ids, tool_invocations)"
| "query_loop cid (query # queries) (ids, tool_invocations) =
     query_loop cid queries
       (ids @ [cid],
        tool_invocations @ [\<lparr>tool = ''tavily_search_results_json'', tool_input = query\<rparr>])"

fun call_loop ::
  "parsed_call list \<Rightarrow> string list \<times> ToolInvocation list
     \<Rightarrow> exn + string list \<times> ToolInvocation list" where
  "call_loop [] acc = Inr acc"
| "call_loop (parsed_call # calls) acc =
     (case search_queries (call_args parsed_call) of
        None \<Rightarrow> Inl (KeyError ''search_queries'')
      | Some queries \<Rightarrow> call_loop calls (query_loop (call_id parsed_call) queries acc))"

text \<open>
  Modelled from the spec: \<^verbatim>\<open>ToolExecutor.batch\<close> of
  \<^verbatim>\<open>langgraph.prebuilt.tool_executor\<close> and the search tool behind it are not part of the
  notebook. The spec has the whole flattened list executed as one batch, one lookup per
  operation, the failure of a lookup surfaced as an error value and never aborting the
  batch. So the batch runs the search on every invocation's input and returns the
  outputs in the order of the invocations, a failed lookup being the output
  \<open>SearchError\<close>.
\<close>

fun tool_executor_batch ::
  "'e search_fn \<Rightarrow> ToolInvocation list \<Rightarrow> 'e world \<Rightarrow> tool_output list \<times> 'e world" where
  "tool_executor_batch search [] w = ([], w)"
| "tool_executor_batch search (invocation # invocations) w =
     (case search (tool_input invocation) (env w) of
        (out, e') \<Rightarrow>
          (case tool_executor_batch search invocations
                  (w\<lparr>env := e', lookups := lookups w @ [tool_input invocation]\<rparr>) of
             (outs, w') \<Rightarrow> (out # outs, w')))"

type_synonym outputs_map_t = "(string \<times> (string \<times> tool_output) list) list"

text \<open>Reading a key of a \<^verbatim>\<open>defaultdict(dict)\<close>: the empty dictionary when absent.\<close>

definition getitem_default :: "outputs_map_t \<Rightarrow> string \<Rightarrow> (string \<times> tool_output) list" where
  "getitem_default outputs_map tid =
     (case map_of outputs_map tid of None \<Rightarrow> [] | Some query_outputs \<Rightarrow> query_outputs)"

fun group_loop ::
  "(string \<times> tool_output \<times> ToolInvocation) list \<Rightarrow> outputs_map_t \<Rightarrow> outputs_map_t" where
  "group_loop [] outputs_map = outputs_map"
| "group_loop ((tid, out, invocation) # rest) outputs_map =
     group_loop rest
       (AList.update tid
          (AList.update (tool_input invocation) out (getitem_default outputs_map tid))
          outputs_map)"

definition execute_tools ::
  "'e search_fn \<Rightarrow> message list \<Rightarrow> 'e world \<Rightarrow> (exn + message list) \<times> 'e world" where
  "execute_tools search state w =
     (if state = [] then (Inl (IndexError ''list index out of range''), w)
      else
        (case call_loop (parser_invoke (last state)) ([], []) of
           Inl e \<Rightarrow> (Inl e, w)
         | Inr (ids, tool_invocations) \<Rightarrow>
             (case tool_executor_batch search tool_invocations w of
                (outputs, w') \<Rightarrow>
                  (Inr (map (\<lambda>(tid, query_outputs). ToolMessage query_outputs tid)
                          (group_loop (zip ids (zip outputs tool_invocations)) [])),
                   w'))))"

text \<open>
  For stating properties: the query strings of a call (none when the key is absent) and
  the (call identifier, query) pairs of a list of calls, in the order of the two loops.
\<close>

definition queries_of :: "parsed_call \<Rightarrow> string list" where
  "queries_of c = (case search_queries (call_args c) of None \<Rightarrow> [] | Some qs \<Rightarrow> qs)"

definition operations :: "parsed_call list \<Rightarrow> (string \<times> string) list" where
  "operations calls = concat (map (\<lambda>c. map (Pair (call_id c)) (queries_of c)) calls)"

definition well_formed :: "parsed_call list \<Rightarrow> bool" where
  "well_formed calls = list_all (\<lambda>c. search_queries (call_args c) \<noteq> None) calls"

definition invocation_of :: "string \<Rightarrow> ToolInvocation" where
  "invocation_of query = \<lparr>tool = ''tavily_search_results_json'', tool_input = query\<rparr>"

definition queries_under :: "parsed_call list \<Rightarrow> string \<Rightarrow> string list" where
  "queries_under calls tid = map snd (filter (\<lambda>p. fst p = tid) (operations calls))"

text \<open>Auxiliary notions for the proofs about the grouping loop.\<close>

definition lookup2 :: "outputs_map_t \<Rightarrow> string \<Rightarrow> string \<Rightarrow> tool_output option" where
  "lookup2 m i q = (case map_of m i of None \<Rightarrow> None | Some d \<Rightarrow> map_of d q)"

definition keyed :: "(string \<times> tool_output \<times> ToolInvocation) list \<Rightarrow> ((string \<times> string) \<times> tool_output) list" where
  "keyed ts = map (\<lambda>(i, out, inv). ((i, tool_input inv), out)) ts"

definition inner_distinct :: "outputs_map_t \<Rightarrow> bool" where
  "inner_distinct m = (\<forall>(i, d) \<in> set m. distinct (map fst d))"

definition grouped :: "(string \<times> string) list \<Rightarrow> tool_output list \<Rightarrow> outputs_map_t" where
  "grouped ops outs =
     group_loop (zip (map fst ops) (zip outs (map (invocation_of \<circ> snd) ops))) []"

section \<open>Sample collaborators\<close>

text \<open>
  Concrete collaborators for evaluating the functions: a search that always succeeds, a
  search whose first lookup succeeds and whose later lookups time out (the state counts
  the lookups made), and a world in which nothing has been called yet.
\<close>

definition search_echo :: "nat search_fn" where
  "search_echo query n = (SearchResults [(''https://example.com'', query)], n + 1)"

definition world0 :: "nat world" where
  "world0 = \<lparr>env = 0, completions = [], lookups = []\<rparr>"

definition search_flaky :: "nat search_fn" where
  "search_flaky query n =
     (if n = 0 then SearchResults [(''https://example.com'', query)]
      else SearchError ''timeout'', n + 1)"

section \<open>The retrying responder\<close>

text \<open>
  \<^verbatim>\<open>
  class ResponderWithRetries:
      def __init__(self, runnable, validator):
          self.runnable = runnable
          self.validator = validator

      @traceable
      def respond(self, state: List[BaseMessage]):
          response = []
          for attempt in range(3):
              try:
                  response = self.runnable.invoke({"messages": state})
                  self.validator.invoke(response)
                  return response
              except ValidationError as e:
                  state = state + [HumanMessage(content=repr(e))]
          return response
  \<close>
  The runnable is the prompt piped into the chat model: it is given the message list and
  returns a model-generated message or raises. The validator parses the tool calls of
  the response into the schema class and raises when that fails; it returns nothing
  that is used.

  A Python list is an object, and the caller and \<open>respond\<close> hold references to the same
  one. The heap is the list of the list objects allocated so far, an address is an index
  into it. \<^verbatim>\<open>state + [m]\<close> allocates a new list object and leaves its operands as
  they are; the assignment rebinds the local name \<open>state\<close> to the new address.
\<close>

type_synonym heap = "message list list"

definition list_add :: "heap \<Rightarrow> nat \<Rightarrow> message list \<Rightarrow> nat \<times> heap" where
  "list_add h a xs = (length h, h @ [h ! a @ xs])"

record 'e ResponderWithRetries =
  runnable :: "'e runnable_fn"
  validator :: validator_fn

text \<open>One call of the generative backend: it is recorded in the world.\<close>

definition runnable_invoke ::
  "'e runnable_fn \<Rightarrow> message list \<Rightarrow> 'e world \<Rightarrow> (exn + ai_message) \<times> 'e world" where
  "runnable_invoke run messages w =
     (case run messages (env w) of
        (res, e') \<Rightarrow> (res, w\<lparr>env := e', completions := completions w @ [messages]\<rparr>))"

text \<open>
  The body of the \<^verbatim>\<open>try\<close> statement. It yields the exception raised or the value
  returned, the value of the variable \<open>response\<close> afterwards (\<open>None\<close> is the initial
  empty list) and the world.
\<close>

definition try_body ::
  "'e ResponderWithRetries \<Rightarrow> message list \<Rightarrow> message option \<Rightarrow> 'e world
     \<Rightarrow> (exn + message) \<times> message option \<times> 'e world" where
  "try_body self messages response w =
     (case runnable_invoke (runnable self) messages w of
        (Inl e, w') \<Rightarrow> (Inl e, response, w')
      | (Inr r, w') \<Rightarrow>
          (case validator self r of
             Some e \<Rightarrow> (Inl e, Some (AIMessage r), w')
           | None \<Rightarrow> (Inr (AIMessage r), Some (AIMessage r), w')))"

fun respond_loop ::
  "'e ResponderWithRetries \<Rightarrow> nat \<Rightarrow> nat \<Rightarrow> message option \<Rightarrow> heap \<Rightarrow> 'e world
     \<Rightarrow> (exn + message option) \<times> heap \<times> 'e world" where
  "respond_loop self 0 state response h w = (Inr response, h, w)"
| "respond_loop self (Suc attempts) state response h w =
     (case try_body self (h ! state) response w of
        (Inr r, response', w') \<Rightarrow> (Inr (Some r), h, w')
      | (Inl e, response', w') \<Rightarrow>
          if is_ValidationError e then
            (case list_add h state [HumanMessage (repr e)] of
               (state', h') \<Rightarrow> respond_loop self attempts state' response' h' w')
          else (Inl e, h, w'))"

definition respond ::
  "'e ResponderWithRetries \<Rightarrow> nat \<Rightarrow> heap \<Rightarrow> 'e world
     \<Rightarrow> (exn + message option) \<times> heap \<times> 'e world" where
  "respond self state h w = respond_loop self 3 state None h w"

section \<open>The graph\<close>

text \<open>
  \<^verbatim>\<open>
  builder = MessageGraph()
  builder.add_node("draft", first_responder.respond)
  builder.add_node("execute_tools", execute_tools)
  builder.add_node("revise", revisor.respond)
  builder.add_edge("draft", "execute_tools")
  builder.add_edge("execute_tools", "revise")
  builder.add_conditional_edges("revise", event_loop)
  builder.set_entry_point("draft")
  graph = builder.compile()
  \<close>

  Modelled from the spec: the runtime of \<^verbatim>\<open>MessageGraph\<close> (\<^verbatim>\<open>langgraph.graph\<close>) is
  not part of the notebook. After the spec the conversation is the only state, every
  stage is given the whole conversation and the messages it returns are appended to it,
  the run starts at the draft stage and follows the edges until END, and an exception
  raised by a stage ends the run. A responder is called with a reference to the
  conversation's list object; what it returns (one message, or the empty list) is appended
  to that list as it is after the call.
\<close>

definition call_respond ::
  "'e ResponderWithRetries \<Rightarrow> message list \<Rightarrow> 'e world \<Rightarrow> (exn + message list) \<times> 'e world" where
  "call_respond self conv w =
     (case respond self 0 [conv] w of
        (Inl e, h', w') \<Rightarrow> (Inl e, w')
      | (Inr response, h', w') \<Rightarrow>
          (Inr (h' ! 0 @ (case response of None \<Rightarrow> [] | Some m \<Rightarrow> [m])), w'))"

definition graph_step ::
  "'e ResponderWithRetries \<Rightarrow> 'e ResponderWithRetries \<Rightarrow> 'e search_fn
     \<Rightarrow> node \<Rightarrow> message list \<Rightarrow> 'e world \<Rightarrow> exn + node \<times> message list \<times> 'e world" where
  "graph_step first_responder revisor search n conv w =
     (case n of
        Draft \<Rightarrow>
          (case call_respond first_responder conv w of
             (Inl e, w') \<Rightarrow> Inl e
           | (Inr conv', w') \<Rightarrow> Inr (ExecuteTools, conv', w'))
      | ExecuteTools \<Rightarrow>
          (case execute_tools search conv w of
             (Inl e, w') \<Rightarrow> Inl e
           | (Inr msgs, w') \<Rightarrow> Inr (Revise, conv @ msgs, w'))
      | Revise \<Rightarrow>
          (case call_respond revisor conv w of
             (Inl e, w') \<Rightarrow> Inl e
           | (Inr conv', w') \<Rightarrow> Inr (event_loop conv', conv', w'))
      | END \<Rightarrow> Inr (END, conv, w))"

text \<open>
  A run of at most \<open>fuel\<close> transitions: \<open>None\<close> when END is not reached within them,
  otherwise the exception that ended the run or the final conversation.
\<close>

fun run ::
  "'e ResponderWithRetries \<Rightarrow> 'e ResponderWithRetries \<Rightarrow> 'e search_fn
     \<Rightarrow> nat \<Rightarrow> node \<Rightarrow> message list \<Rightarrow> 'e world
     \<Rightarrow> (exn + message list \<times> 'e world) option" where
  "run first_responder revisor search 0 n conv w =
     (if n = END then Some (Inr (conv, w)) else None)"
| "run first_responder revisor search (Suc fuel) n conv w =
     (if n = END then Some (Inr (conv, w))
      else
        (case graph_step first_responder revisor search n conv w of
           Inl e \<Rightarrow> Some (Inl e)
         | Inr (n', conv', w') \<Rightarrow> run first_responder revisor search fuel n' conv' w'))"



text \<open>
  Stubs for the responder: a generative backend whose first \<open>k\<close> answers lack the
  queries and whose later answers carry one query (the state counts the calls), a backend
  that always raises, and a validator that rejects a response with a tool call lacking
  its queries.
\<close>

definition invalid_response :: ai_message where
  "invalid_response = AI [] [ParsedCall ''AnswerQuestion'' (Args None) ''call_0'']"

definition valid_response :: ai_message where
  "valid_response = AI [] [ParsedCall ''AnswerQuestion'' (Args (Some [''q''])) ''call_1'']"

definition runnable_stub :: "nat \<Rightarrow> nat runnable_fn" where
  "runnable_stub k messages n =
     (Inr (if n < k then invalid_response else valid_response), n + 1)"

definition runnable_raising :: "nat runnable_fn" where
  "runnable_raising messages n = (Inl (OtherException ''RateLimitError''), n + 1)"

definition validator_stub :: validator_fn where
  "validator_stub r =
     (if well_formed (tool_calls r) then None else Some (ValidationError ''field required''))"

definition responder_stub :: "nat \<Rightarrow> nat ResponderWithRetries" where
  "responder_stub k = \<lparr>runnable = runnable_stub k, validator = validator_stub\<rparr>"

definition responder_raising :: "nat ResponderWithRetries" where
  "responder_raising = \<lparr>runnable = runnable_raising, validator = validator_stub\<rparr>"

section \<open>The answer schemas\<close>

text \<open>
  \<^verbatim>\<open>
  class Reflection(BaseModel):
      missing: str = Field(description="Critique of what is missing.")
      superfluous: str = Field(description="Critique of what is superfluous")

  class AnswerQuestion(BaseModel):
      """Answer the question."""
      answer: str = Field(description="~250 word detailed answer to the question.")
      reflection: Reflection = Field(description="Your reflection on the initial answer.")
      search_queries: List[str] = Field(
          description="1-3 search queries for researching improvements to address the critique of your current answer."
      )

  class ReviseAnswer(AnswerQuestion):
      """Revise your original answer to your question."""
      references: List[str] = Field(
          description="Citations motivating your updated answer."
      )
  \<close>
  A class lists its fields with their declared types; a subclass has the fields of its
  base class and its own. Each \<^verbatim>\<open>Field\<close> gives a description only: no default (so
  the field is required) and no bound on a length.
\<close>

datatype json =
    JNull
  | JBool bool
  | JNum int
  | JStr string
  | JArr "json list"
  | JObj "(string \<times> json) list"

datatype field_type = Str | ListOf field_type | Model "(string \<times> field_type) list"

definition Reflection :: "(string \<times> field_type) list" where
  "Reflection = [(''missing'', Str), (''superfluous'', Str)]"

definition AnswerQuestion :: "(string \<times> field_type) list" where
  "AnswerQuestion =
     [(''answer'', Str), (''reflection'', Model Reflection), (''search_queries'', ListOf Str)]"

definition ReviseAnswer :: "(string \<times> field_type) list" where
  "ReviseAnswer = AnswerQuestion @ [(''references'', ListOf Str)]"

text \<open>
  Building an instance of a class from the arguments of a tool call, a parsed JSON object,
  as the validation library (pydantic, version 1) does it for these declared types: a
  \<^verbatim>\<open>str\<close> field takes a string, and a number or boolean, which it converts to a
  string; a \<^verbatim>\<open>List[str]\<close> field takes an array whose entries are taken as
  \<^verbatim>\<open>str\<close>; a field of a model class takes an object that validates against that
  class; every declared field must be present, keys that are not declared are ignored. A
  key given twice in an object has its last value.
\<close>

definition getitem :: "(string \<times> json) list \<Rightarrow> string \<Rightarrow> json option" where
  "getitem kvs k = map_of (rev kvs) k"

fun conforms :: "field_type \<Rightarrow> json \<Rightarrow> bool" where
  "conforms Str j =
     (case j of JStr s \<Rightarrow> True | JNum n \<Rightarrow> True | JBool b \<Rightarrow> True | _ \<Rightarrow> False)"
| "conforms (ListOf t) j =
     (case j of JArr xs \<Rightarrow> list_all (conforms t) xs | _ \<Rightarrow> False)"
| "conforms (Model declared) j =
     (case j of
        JObj kvs \<Rightarrow>
          list_all (\<lambda>(name, t). case getitem kvs name of
                                    None \<Rightarrow> False
                                  | Some v \<Rightarrow> conforms t v) declared
      | _ \<Rightarrow> False)"

text \<open>
  \<^verbatim>\<open>
  validator = PydanticToolsParser(tools=[AnswerQuestion])
  revision_validator = PydanticToolsParser(tools=[ReviseAnswer])
  \<close>
  The validator goes through the tool calls of the response, each a tool name with its
  parsed arguments, in order, and builds for each the instance of the class of that
  name. Arguments that are not an object make it raise \<^verbatim>\<open>ValueError\<close>, a tool name
  that is not among its tools \<^verbatim>\<open>KeyError\<close>, and arguments that do not validate
  against the class \<^verbatim>\<open>ValidationError\<close>; the first exception ends it. Of these
  \<open>respond\<close> catches the validation error only.
\<close>

datatype json_call = JsonCall (json_type: string) (json_args: json)

definition validate :: "(string \<times> field_type) list \<Rightarrow> (string \<times> json) list \<Rightarrow> exn option" where
  "validate cls kvs =
     (if conforms (Model cls) (JObj kvs) then None
      else Some (ValidationError ''validation error''))"

definition parse_call ::
  "(string \<times> (string \<times> field_type) list) list \<Rightarrow> json_call \<Rightarrow> exn option" where
  "parse_call name_dict res =
     (case json_args res of
        JObj kvs \<Rightarrow>
          (case map_of name_dict (json_type res) of
             None \<Rightarrow> Some (KeyError (json_type res))
           | Some cls \<Rightarrow> validate cls kvs)
      | _ \<Rightarrow> Some (ValueError ''Tool arguments must be specified as a dict''))"

fun PydanticToolsParser ::
  "(string \<times> (string \<times> field_type) list) list \<Rightarrow> json_call list \<Rightarrow> exn option" where
  "PydanticToolsParser name_dict [] = None"
| "PydanticToolsParser name_dict (res # results) =
     (case parse_call name_dict res of
        Some e \<Rightarrow> Some e
      | None \<Rightarrow> PydanticToolsParser name_dict results)"

definition validator_AnswerQuestion :: "json_call list \<Rightarrow> exn option" where
  "validator_AnswerQuestion = PydanticToolsParser [(''AnswerQuestion'', AnswerQuestion)]"

definition revision_validator :: "json_call list \<Rightarrow> exn option" where
  "revision_validator = PydanticToolsParser [(''ReviseAnswer'', ReviseAnswer)]"

text \<open>
  For stating properties: a value that a \<^verbatim>\<open>str\<close> field takes, and a candidate with
  the given answer, reflection and search queries.
\<close>

definition taken_as_str :: "json \<Rightarrow> bool" where
  "taken_as_str j = ((\<exists>s. j = JStr s) \<or> (\<exists>n. j = JNum n) \<or> (\<exists>b. j = JBool b))"

definition answer_candidate :: "string \<Rightarrow> string \<Rightarrow> string \<Rightarrow> string list \<Rightarrow> (string \<times> json) list" where
  "answer_candidate a m s qs =
     [(''answer'', JStr a),
      (''reflection'', JObj [(''missing'', JStr m), (''superfluous'', JStr s)]),
      (''search_queries'', JArr (map JStr qs))]"

section \<open>The iteration depth\<close>

lemma num_iterations_loop_takeWhile:
  "num_iterations_loop ms i = i + length (takeWhile isinstance_Tool_AI ms)"
  by (induction ms arbitrary: i) auto

lemma get_num_iterations_takeWhile:
  "get_num_iterations state = length (takeWhile isinstance_Tool_AI (rev state))"
  by (simp add: get_num_iterations_def num_iterations_loop_takeWhile)

lemma takeWhile_rev_all:
  "list_all P ys \<Longrightarrow> takeWhile P (rev ys @ zs) = rev ys @ takeWhile P zs"
proof -
  have "\<forall>x\<in>set us. P x \<Longrightarrow> takeWhile P (us @ zs) = us @ takeWhile P zs" for us
    by (induction us) auto
  from this [of "rev ys"] show "list_all P ys \<Longrightarrow> ?thesis"
    by (simp add: list_all_iff)
qed

lemma get_num_iterations_append:
  "list_all isinstance_Tool_AI ys \<Longrightarrow>
   get_num_iterations (xs @ ys) = get_num_iterations xs + length ys"
  by (simp add: get_num_iterations_takeWhile takeWhile_rev_all del: takeWhile_append2)

lemma get_num_iterations_all:
  "list_all isinstance_Tool_AI ys \<Longrightarrow> get_num_iterations ys = length ys"
  using get_num_iterations_append [of ys "[]"]
  by (simp add: get_num_iterations_takeWhile)

lemma get_num_iterations_stop:
  assumes "\<not> isinstance_Tool_AI m" and "list_all isinstance_Tool_AI ys"
  shows "get_num_iterations (xs @ m # ys) = length ys"
proof -
  have "get_num_iterations ((xs @ [m]) @ ys) = get_num_iterations (xs @ [m]) + length ys"
    using assms(2) by (rule get_num_iterations_append)
  moreover have "get_num_iterations (xs @ [m]) = 0"
    using assms(1) by (simp add: get_num_iterations_takeWhile)
  ultimately show ?thesis by simp
qed

lemma get_num_iterations_reset:
  "\<not> isinstance_Tool_AI m \<Longrightarrow>
   get_num_iterations (xs @ m # ys) = get_num_iterations (m # ys)"
proof -
  assume m: "\<not> isinstance_Tool_AI m"
  have "takeWhile isinstance_Tool_AI (rev ys @ m # rev xs)
      = takeWhile isinstance_Tool_AI (rev ys @ [m])"
  proof (cases "list_all isinstance_Tool_AI ys")
    case True
    then show ?thesis using m
      by (simp add: takeWhile_rev_all del: takeWhile_append2)
  next
    case False
    then obtain y where "y \<in> set (rev ys)" "\<not> isinstance_Tool_AI y"
      by (auto simp: list_all_iff)
    then show ?thesis by (simp add: takeWhile_append1)
  qed
  then show ?thesis by (simp add: get_num_iterations_takeWhile)
qed

text \<open>
  Claim C2. The iteration depth is a function of the conversation alone: it is the number
  of trailing messages that are model-generated or tool messages, the scan from the end
  stopping at the first message of another kind. So a conversation consisting of any
  prefix, a message of another kind and then \<open>k\<close> generated messages has depth \<open>k\<close>,
  whatever the prefix is; a later human message resets the count to the messages after
  it. The decision after the revise stage is END when the depth exceeds 5 and
  "execute_tools" otherwise.
\<close>

theorem C2_iteration_depth:
  "get_num_iterations state = length (takeWhile isinstance_Tool_AI (rev state))
   \<and> event_loop state = (if 5 < get_num_iterations state then END else ExecuteTools)
   \<and> get_num_iterations (xs @ HumanMessage t # ys) = get_num_iterations (HumanMessage t # ys)
   \<and> get_num_iterations (xs @ HumanMessage t # map AIMessage rs)
       = length rs
   \<and> (list_all isinstance_Tool_AI ys \<longrightarrow>
        get_num_iterations (xs @ HumanMessage t # ys) = length ys)"
proof -
  have gen: "list_all isinstance_Tool_AI (map AIMessage rs)"
    by (induction rs) auto
  have "get_num_iterations (xs @ HumanMessage t # map AIMessage rs) = length rs"
    using get_num_iterations_stop [of "HumanMessage t" "map AIMessage rs" xs] gen by simp
  moreover have "event_loop state = (if 5 < get_num_iterations state then END else ExecuteTools)"
    by (simp add: event_loop_def MAX_ITERATIONS_def)
  moreover have "get_num_iterations (xs @ HumanMessage t # ys) = get_num_iterations (HumanMessage t # ys)"
    by (rule get_num_iterations_reset) simp
  moreover have "list_all isinstance_Tool_AI ys \<longrightarrow>
        get_num_iterations (xs @ HumanMessage t # ys) = length ys"
    using get_num_iterations_stop [of "HumanMessage t" ys xs] by simp
  ultimately show ?thesis
    by (simp add: get_num_iterations_takeWhile)
qed

theorem C2_iteration_depth_witness:
  "list_all isinstance_Tool_AI [AIMessage (AI [] []), ToolMessage [] ''call_1'']
   \<and> get_num_iterations
       ([HumanMessage ''a'', AIMessage (AI [] [])] @ HumanMessage ''b''
          # [AIMessage (AI [] []), ToolMessage [] ''call_1'']) = 2
   \<and> event_loop
       ([HumanMessage ''a'', AIMessage (AI [] [])] @ HumanMessage ''b''
          # [AIMessage (AI [] []), ToolMessage [] ''call_1'']) = ExecuteTools"
  using C2_iteration_depth [of "[HumanMessage ''a'', AIMessage (AI [] [])] @ HumanMessage ''b''
          # [AIMessage (AI [] []), ToolMessage [] ''call_1'']"
       "[HumanMessage ''a'', AIMessage (AI [] [])]" "''b''"
       "[AIMessage (AI [] []), ToolMessage [] ''call_1'']" "[]"]
  by simp


section \<open>The tool dispatcher\<close>


lemma query_loop_eq:
  "query_loop cid qs (ids, tis) =
     (ids @ map (\<lambda>q. cid) qs, tis @ map invocation_of qs)"
  by (induction qs arbitrary: ids tis) (auto simp: invocation_of_def)

lemma call_loop_eq:
  "well_formed calls \<Longrightarrow>
   call_loop calls (ids, tis) =
     Inr (ids @ map fst (operations calls), tis @ map (invocation_of \<circ> snd) (operations calls))"
proof (induction calls arbitrary: ids tis)
  case Nil
  then show ?case by (simp add: operations_def)
next
  case (Cons c calls)
  then obtain qs where qs: "search_queries (call_args c) = Some qs"
    by (auto simp: well_formed_def)
  have wf: "well_formed calls" using Cons.prems by (simp add: well_formed_def)
  show ?case
    using Cons.IH [OF wf] qs
    by (simp add: query_loop_eq operations_def queries_of_def comp_def)
qed

lemma call_loop_KeyError:
  "\<not> well_formed calls \<Longrightarrow> call_loop calls acc = Inl (KeyError ''search_queries'')"
proof (induction calls arbitrary: acc)
  case Nil
  then show ?case by (simp add: well_formed_def)
next
  case (Cons c calls)
  show ?case
  proof (cases "search_queries (call_args c)")
    case None
    then show ?thesis by simp
  next
    case (Some qs)
    then have "\<not> well_formed calls" using Cons.prems by (simp add: well_formed_def)
    then show ?thesis using Some Cons.IH by simp
  qed
qed

lemma batch_props:
  "tool_executor_batch search tis w = (outs, w') \<Longrightarrow>
   length outs = length tis \<and> lookups w' = lookups w @ map tool_input tis
   \<and> completions w' = completions w"
proof (induction tis arbitrary: w outs w')
  case Nil
  then show ?case by simp
next
  case (Cons t tis)
  obtain out e' where s: "search (tool_input t) (env w) = (out, e')"
    by (cases "search (tool_input t) (env w)")
  obtain outs1 w1 where r: "tool_executor_batch search tis
      (w\<lparr>env := e', lookups := lookups w @ [tool_input t]\<rparr>) = (outs1, w1)"
    by (cases "tool_executor_batch search tis
      (w\<lparr>env := e', lookups := lookups w @ [tool_input t]\<rparr>)")
  from Cons.prems s r have eq: "outs = out # outs1" "w' = w1" by simp_all
  from Cons.IH [OF r] eq show ?case by simp
qed

lemma lookup2_update:
  "lookup2 (AList.update i (AList.update q out (getitem_default m i)) m) i' q' =
     (if i' = i \<and> q' = q then Some out else lookup2 m i' q')"
  by (auto simp: lookup2_def getitem_default_def update_conv' split: option.splits)

lemma lookup2_group_loop:
  "lookup2 (group_loop ts m) i q =
     (case map_of (rev (keyed ts)) (i, q) of Some out \<Rightarrow> Some out | None \<Rightarrow> lookup2 m i q)"
proof (induction ts arbitrary: m)
  case Nil
  then show ?case by (simp add: keyed_def)
next
  case (Cons t ts)
  obtain i' out inv where t: "t = (i', out, inv)" by (cases t)
  show ?case
    unfolding t
    by (simp add: Cons.IH lookup2_update keyed_def map_add_def split: option.splits)
qed

lemma keys_group_loop:
  "fst ` set (group_loop ts m) = fst ` set m \<union> fst ` set ts"
proof (induction ts arbitrary: m)
  case Nil
  then show ?case by simp
next
  case (Cons t ts)
  obtain i' out inv where t: "t = (i', out, inv)" by (cases t)
  show ?case unfolding t by (auto simp add: Cons.IH dom_update)
qed

lemma distinct_group_loop:
  "distinct (map fst m) \<Longrightarrow> distinct (map fst (group_loop ts m))"
proof (induction ts arbitrary: m)
  case Nil
  then show ?case by simp
next
  case (Cons t ts)
  obtain i' out inv where t: "t = (i', out, inv)" by (cases t)
  show ?case unfolding t using Cons.prems by (simp add: Cons.IH distinct_update)
qed

lemma inner_distinct_update:
  assumes "inner_distinct m"
  shows "inner_distinct (AList.update i (AList.update q out (getitem_default m i)) m)"
proof -
  have d: "distinct (map fst (getitem_default m i))"
    using assms by (auto simp: getitem_default_def inner_distinct_def split: option.splits dest: map_of_SomeD)
  have "set (AList.update k v al) \<subseteq> insert (k, v) (set al)" for k :: string and v :: "(string \<times> tool_output) list" and al
    by (induction al) auto
  then show ?thesis
    using assms d unfolding inner_distinct_def by (fastforce simp: distinct_update)
qed

lemma inner_distinct_group_loop:
  "inner_distinct m \<Longrightarrow> inner_distinct (group_loop ts m)"
proof (induction ts arbitrary: m)
  case Nil
  then show ?case by simp
next
  case (Cons t ts)
  obtain i' out inv where t: "t = (i', out, inv)" by (cases t)
  show ?case unfolding t using Cons.prems by (simp add: Cons.IH inner_distinct_update)
qed

lemma keyed_zip:
  "length outs = length ops \<Longrightarrow>
   keyed (zip (map fst ops) (zip outs (map (invocation_of \<circ> snd) ops))) = zip ops outs"
proof (induction outs ops rule: list_induct2)
  case Nil
  then show ?case by (simp add: keyed_def)
next
  case (Cons out outs p ops)
  then show ?case by (cases p) (simp add: keyed_def invocation_of_def)
qed

lemma fst_set_zip3:
  "length outs = length ops \<Longrightarrow>
   fst ` set (zip (map fst ops) (zip outs (map f ops))) = fst ` set ops"
proof -
  assume l: "length outs = length ops"
  have "map fst (zip (map fst ops) (zip outs (map f ops))) = map fst ops"
    using l by (simp add: map_fst_zip)
  then have "set (map fst (zip (map fst ops) (zip outs (map f ops)))) = set (map fst ops)"
    by simp
  then show ?thesis by (simp only: set_map)
qed

lemma map_of_rev_zip_dom:
  "length outs = length ops \<Longrightarrow>
   (map_of (rev (zip ops outs)) k \<noteq> None) = (k \<in> set ops)"
proof -
  assume l: "length outs = length ops"
  have "(map_of (rev (zip ops outs)) k \<noteq> None) = (k \<in> fst ` set (rev (zip ops outs)))"
    by (metis map_of_eq_None_iff)
  also have "\<dots> = (k \<in> set (map fst (zip ops outs)))" by simp
  also have "\<dots> = (k \<in> set ops)" using l by (simp only: map_fst_zip)
  finally show ?thesis .
qed

lemma map_of_rev_zip_last:
  assumes l: "length outs = length ops" and k: "k < length ops"
    and later: "\<forall>j. k < j \<and> j < length ops \<longrightarrow> ops ! j \<noteq> ops ! k"
  shows "map_of (rev (zip ops outs)) (ops ! k) = Some (outs ! k)"
proof -
  let ?zs = "zip ops outs"
  have kz: "k < length ?zs" using l k by simp
  have split: "?zs = take k ?zs @ ?zs ! k # drop (Suc k) ?zs"
    using kz by (rule id_take_nth_drop)
  have notin: "ops ! k \<notin> fst ` set (rev (drop (Suc k) ?zs))"
  proof
    assume "ops ! k \<in> fst ` set (rev (drop (Suc k) ?zs))"
    then have "ops ! k \<in> set (map fst (drop (Suc k) ?zs))" by simp
    then have "ops ! k \<in> set (drop (Suc k) ops)"
      using l by (simp add: drop_map [symmetric] map_fst_zip del: set_map)
    then obtain j where "j < length (drop (Suc k) ops)" "drop (Suc k) ops ! j = ops ! k"
      by (auto simp: in_set_conv_nth)
    then have "Suc k + j < length ops" "ops ! (Suc k + j) = ops ! k"
      by simp_all
    with later show False by (metis less_add_Suc1 add_Suc)
  qed
  have "rev ?zs = rev (drop (Suc k) ?zs) @ (?zs ! k # rev (take k ?zs))"
    by (subst split) simp
  then have "map_of (rev ?zs) (ops ! k)
      = map_of (rev (drop (Suc k) ?zs) @ (?zs ! k # rev (take k ?zs))) (ops ! k)"
    by simp
  also have "\<dots> = map_of (?zs ! k # rev (take k ?zs)) (ops ! k)"
  proof -
    have none: "map_of (rev (drop (Suc k) ?zs)) (ops ! k) = None"
      using notin by (simp add: map_of_eq_None_iff)
    show ?thesis
      by (simp only: map_of_append map_add_def none option.case)
  qed
  also have "\<dots> = Some (outs ! k)"
    using kz l k by simp
  finally show ?thesis .
qed

lemma execute_tools_eq:
  assumes wf: "well_formed (tool_calls r)"
    and b: "tool_executor_batch search (map (invocation_of \<circ> snd) (operations (tool_calls r))) w
              = (outs, w')"
  shows "execute_tools search (conv @ [AIMessage r]) w =
     (Inr (map (\<lambda>(tid, query_outputs). ToolMessage query_outputs tid)
            (group_loop (zip (map fst (operations (tool_calls r)))
                          (zip outs (map (invocation_of \<circ> snd) (operations (tool_calls r))))) [])),
      w')"
  using call_loop_eq [OF wf, of "[]" "[]"] b
  by (simp add: execute_tools_def)



lemma execute_tools_grouped:
  assumes wf: "well_formed (tool_calls r)"
    and b: "tool_executor_batch search (map (invocation_of \<circ> snd) (operations (tool_calls r))) w
              = (outs, w')"
  shows "execute_tools search (conv @ [AIMessage r]) w =
     (Inr (map (\<lambda>(tid, query_outputs). ToolMessage query_outputs tid)
            (grouped (operations (tool_calls r)) outs)), w')"
  using execute_tools_eq [OF wf b] by (simp add: grouped_def)

lemma grouped_keys:
  assumes l: "length outs = length ops"
  shows "distinct (map fst (grouped ops outs))"
    and "fst ` set (grouped ops outs) = fst ` set ops"
proof -
  show "distinct (map fst (grouped ops outs))"
    unfolding grouped_def by (rule distinct_group_loop) simp
  show "fst ` set (grouped ops outs) = fst ` set ops"
    unfolding grouped_def using fst_set_zip3 [OF l] by (simp add: keys_group_loop)
qed

lemma grouped_entry:
  assumes l: "length outs = length ops" and m: "(i, d) \<in> set (grouped ops outs)"
  shows "distinct (map fst d)"
    and "map_of d q = map_of (rev (zip ops outs)) (i, q)"
    and "fst ` set d = {q. (i, q) \<in> set ops}"
proof -
  have "inner_distinct (grouped ops outs)"
    unfolding grouped_def by (rule inner_distinct_group_loop) (simp add: inner_distinct_def)
  with m show "distinct (map fst d)" by (auto simp: inner_distinct_def)
  have mo: "map_of (grouped ops outs) i = Some d"
    using grouped_keys(1) [OF l] m by simp
  have "lookup2 (grouped ops outs) i q = map_of (rev (zip ops outs)) (i, q)" for q
  proof -
    have e: "lookup2 [] i q = None" by (simp add: lookup2_def)
    show ?thesis
      unfolding grouped_def
      by (simp add: lookup2_group_loop keyed_zip [OF l] e split: option.splits)
  qed
  then show val: "map_of d q = map_of (rev (zip ops outs)) (i, q)" for q
    using mo by (simp add: lookup2_def)
  have "(q \<in> fst ` set d) = ((i, q) \<in> set ops)" for q
  proof -
    have "(q \<in> fst ` set d) = (map_of d q \<noteq> None)"
      by (metis map_of_eq_None_iff)
    then show ?thesis using val [of q] map_of_rev_zip_dom [OF l, of "(i, q)"] by simp
  qed
  then show "fst ` set d = {q. (i, q) \<in> set ops}" by blast
qed

lemma operations_ids:
  "fst ` set (operations calls) = {call_id c |c. c \<in> set calls \<and> queries_of c \<noteq> []}"
  unfolding operations_def
proof (induction calls)
  case Nil
  then show ?case by simp
next
  case (Cons c calls)
  have "fst ` set (map (Pair (call_id c)) (queries_of c))
      = (if queries_of c = [] then {} else {call_id c})"
    by (cases "queries_of c") (auto simp: image_image)
  then show ?case using Cons by (auto simp: image_Un)
qed

lemma operations_queries:
  "{q. (i, q) \<in> set (operations calls)}
     = \<Union> {set (queries_of c) |c. c \<in> set calls \<and> call_id c = i}"
  unfolding operations_def by auto

lemma set_queries_under:
  "set (queries_under calls i) = {q. (i, q) \<in> set (operations calls)}"
  unfolding queries_under_def by force

lemma operations_snd:
  "map snd (operations calls) = concat (map queries_of calls)"
  unfolding operations_def by (induction calls) (simp_all add: comp_def)

lemma operations_fst:
  "map fst (operations calls)
     = concat (map (\<lambda>c. replicate (length (queries_of c)) (call_id c)) calls)"
  unfolding operations_def
  by (induction calls) (simp_all add: comp_def map_replicate_const)



lemma tool_messages_of_grouped:
  assumes "m \<in> set (map (\<lambda>(tid, query_outputs). ToolMessage query_outputs tid) M)"
  shows "\<exists>d i. m = ToolMessage d i \<and> (i, d) \<in> set M"
  using assms by auto

lemma tool_call_ids_of_grouped:
  "map tool_call_id (map (\<lambda>(tid, query_outputs). ToolMessage query_outputs tid) M)
     = map (Some \<circ> fst) M"
  by (induction M) auto

text \<open>
  Claim C1, as amended. For every model message whose tool calls all carry the key
  "search_queries", \<open>execute_tools\<close> returns tool messages with pairwise different
  identifiers, one for each call identifier that has at least one query string (an
  identifier whose calls carry no query gets no tool message); the keys of each tool
  message's mapping are exactly the query strings given under its identifier; and a
  message without tool calls gives no tool message.
\<close>

theorem C1_one_tool_message_per_identifier:
  assumes wf: "well_formed (tool_calls r)"
  shows "\<exists>msgs w'. execute_tools search (conv @ [AIMessage r]) w = (Inr msgs, w')
     \<and> distinct (map tool_call_id msgs)
     \<and> set (map tool_call_id msgs)
         = Some ` {call_id c |c. c \<in> set (tool_calls r) \<and> queries_of c \<noteq> []}
     \<and> (\<forall>m \<in> set msgs. \<exists>d i. m = ToolMessage d i \<and> distinct (map fst d)
           \<and> set (map fst d)
               = \<Union> {set (queries_of c) |c. c \<in> set (tool_calls r) \<and> call_id c = i})
     \<and> (tool_calls r = [] \<longrightarrow> msgs = [])"
proof -
  let ?ops = "operations (tool_calls r)"
  obtain outs w' where b:
    "tool_executor_batch search (map (invocation_of \<circ> snd) ?ops) w = (outs, w')"
    by (cases "tool_executor_batch search (map (invocation_of \<circ> snd) ?ops) w")
  have l: "length outs = length ?ops" using batch_props [OF b] by simp
  let ?M = "grouped ?ops outs"
  let ?msgs = "map (\<lambda>(tid, query_outputs). ToolMessage query_outputs tid) ?M"
  have ex: "execute_tools search (conv @ [AIMessage r]) w = (Inr ?msgs, w')"
    using execute_tools_grouped [OF wf b] .
  have d: "distinct (map tool_call_id ?msgs)"
    using grouped_keys(1) [OF l]
    by (simp only: tool_call_ids_of_grouped map_map [symmetric] distinct_map) (simp add: inj_on_def)
  have "set (map tool_call_id ?msgs) = Some ` fst ` set ?M"
    by (simp only: tool_call_ids_of_grouped set_map image_comp)
  then have s: "set (map tool_call_id ?msgs)
      = Some ` {call_id c |c. c \<in> set (tool_calls r) \<and> queries_of c \<noteq> []}"
    by (simp only: grouped_keys(2) [OF l] operations_ids)
  have k: "\<forall>m \<in> set ?msgs. \<exists>d i. m = ToolMessage d i \<and> distinct (map fst d)
           \<and> set (map fst d)
               = \<Union> {set (queries_of c) |c. c \<in> set (tool_calls r) \<and> call_id c = i}"
  proof
    fix m assume "m \<in> set ?msgs"
    then obtain d i where m: "m = ToolMessage d i" and in_M: "(i, d) \<in> set ?M"
      using tool_messages_of_grouped by blast
    have "set (map fst d) = {q. (i, q) \<in> set ?ops}"
      using grouped_entry(3) [OF l in_M] by simp
    then have "set (map fst d)
        = \<Union> {set (queries_of c) |c. c \<in> set (tool_calls r) \<and> call_id c = i}"
      by (simp only: operations_queries)
    with m grouped_entry(1) [OF l in_M]
    show "\<exists>d i. m = ToolMessage d i \<and> distinct (map fst d)
           \<and> set (map fst d)
               = \<Union> {set (queries_of c) |c. c \<in> set (tool_calls r) \<and> call_id c = i}"
      by blast
  qed
  have e: "tool_calls r = [] \<longrightarrow> ?msgs = []"
  proof
    assume "tool_calls r = []"
    then have "?ops = []" by (simp add: operations_def)
    then have "outs = []" using l by simp
    with \<open>?ops = []\<close> show "?msgs = []" by (simp add: grouped_def)
  qed
  from ex d s k e show ?thesis by blast
qed

theorem C1_one_tool_message_per_identifier_witness:
  "well_formed (tool_calls (AI [] [ParsedCall ''AnswerQuestion'' (Args (Some [''a'', ''b''])) ''call_1'']))
   \<and> (\<exists>msgs w'.
        execute_tools search_echo
          ([HumanMessage ''task'']
             @ [AIMessage (AI [] [ParsedCall ''AnswerQuestion'' (Args (Some [''a'', ''b''])) ''call_1''])])
          world0 = (Inr msgs, w')
        \<and> set (map tool_call_id msgs) = {Some ''call_1''})"
proof -
  let ?r = "AI [] [ParsedCall ''AnswerQuestion'' (Args (Some [''a'', ''b''])) ''call_1'']"
  have wf: "well_formed (tool_calls ?r)" by (simp add: well_formed_def)
  have "{call_id c |c. c \<in> set (tool_calls ?r) \<and> queries_of c \<noteq> []} = {''call_1''}"
    by (auto simp: queries_of_def)
  then show ?thesis
    using wf C1_one_tool_message_per_identifier [OF wf, of search_echo "[HumanMessage ''task'']" world0]
    by auto
qed

text \<open>
  The claim as stated fails: the identifier "call_1" appears in the message's tool calls,
  with an empty list of queries, and no tool message is emitted for it.
\<close>

theorem C1_empty_queries_counterexample:
  "map call_id (tool_calls (AI [] [ParsedCall ''AnswerQuestion'' (Args (Some [])) ''call_1'']))
     = [''call_1'']
   \<and> fst (execute_tools search_echo
        [HumanMessage ''task'',
         AIMessage (AI [] [ParsedCall ''AnswerQuestion'' (Args (Some [])) ''call_1''])]
        world0) = Inr []"
  by (simp add: execute_tools_def)



lemma last_occurrence_ex:
  fixes f :: "nat \<Rightarrow> 'a"
  assumes k: "k < n"
  shows "\<exists>j. k \<le> j \<and> j < n \<and> f j = f k \<and> (\<forall>j'. j < j' \<and> j' < n \<longrightarrow> f j' \<noteq> f k)"
proof -
  let ?Q = "\<lambda>j. j < n \<and> f j = f k"
  have Qk: "?Q k" using k by simp
  have bound: "\<And>y. ?Q y \<Longrightarrow> y \<le> n" by simp
  have g: "?Q (Greatest ?Q)" using Qk bound by (rule GreatestI_nat)
  have le: "k \<le> Greatest ?Q" using Qk bound by (rule Greatest_le_nat)
  have "\<forall>j'. Greatest ?Q < j' \<and> j' < n \<longrightarrow> f j' \<noteq> f k"
  proof (intro allI impI notI)
    fix j' assume a: "Greatest ?Q < j' \<and> j' < n" and e: "f j' = f k"
    then have "?Q j'" by simp
    then have "j' \<le> Greatest ?Q" using bound by (rule Greatest_le_nat)
    with a show False by simp
  qed
  with g le show ?thesis by blast
qed

lemma grouped_last:
  assumes l: "length outs = length ops" and m: "(i, d) \<in> set (grouped ops outs)"
    and j: "j < length ops" and e: "ops ! j = (i, q)"
    and later: "\<forall>j'. j < j' \<and> j' < length ops \<longrightarrow> ops ! j' \<noteq> ops ! j"
  shows "map_of d q = Some (outs ! j)"
  using grouped_entry(2) [OF l m, of q] map_of_rev_zip_last [OF l j later] e by simp

lemma grouped_has_id:
  assumes l: "length outs = length ops" and k: "k < length ops"
  shows "\<exists>d. (fst (ops ! k), d) \<in> set (grouped ops outs)"
proof -
  have "fst (ops ! k) \<in> fst ` set ops" using k by simp
  then have "fst (ops ! k) \<in> fst ` set (grouped ops outs)"
    by (simp only: grouped_keys(2) [OF l])
  then show ?thesis by force
qed

lemma in_tool_messages:
  "(ToolMessage d i \<in> set (map (\<lambda>(tid, query_outputs). ToolMessage query_outputs tid) M))
     = ((i, d) \<in> set M)"
  by (induction M) auto

lemma grouped_length:
  assumes l: "length outs = length (operations calls)"
    and m: "(i, d) \<in> set (grouped (operations calls) outs)"
  shows "length d = card (set (queries_under calls i))"
proof -
  have "length d = length (map fst d)" by simp
  also have "\<dots> = card (set (map fst d))"
    using grouped_entry(1) [OF l m] by (simp only: distinct_card)
  also have "set (map fst d) = set (queries_under calls i)"
    using grouped_entry(3) [OF l m] by (simp add: set_queries_under)
  finally show ?thesis .
qed

text \<open>
  Claim C6. The two nested loops turn the tool calls of the message into one
  \<open>ToolInvocation\<close> per query string, in order, each with that single query string as
  its input, beside the list of the call identifiers, one per invocation. So the number
  of invocations handed to the batch is the total number of query strings over all calls,
  queries under the same identifier staying separate invocations; and the lookups that
  \<open>execute_tools\<close> adds to the record of outbound lookups are exactly these query
  strings, one lookup each.
\<close>

theorem C6_one_operation_per_query:
  assumes wf: "well_formed calls"
  shows "call_loop calls ([], [])
         = Inr (concat (map (\<lambda>c. replicate (length (queries_of c)) (call_id c)) calls),
                map invocation_of (concat (map queries_of calls)))
     \<and> length (map invocation_of (concat (map queries_of calls)))
         = sum_list (map (\<lambda>c. length (queries_of c)) calls)
     \<and> lookups (snd (execute_tools search (conv @ [AIMessage (AI text calls)]) w))
         = lookups w @ concat (map queries_of calls)"
proof -
  let ?ops = "operations calls"
  have inv: "map (invocation_of \<circ> snd) ?ops = map invocation_of (concat (map queries_of calls))"
    by (simp only: map_map [symmetric] operations_snd)
  have a: "call_loop calls ([], [])
         = Inr (concat (map (\<lambda>c. replicate (length (queries_of c)) (call_id c)) calls),
                map invocation_of (concat (map queries_of calls)))"
    using call_loop_eq [OF wf, of "[]" "[]"] by (simp add: operations_fst inv)
  have b: "length (map invocation_of (concat (map queries_of calls)))
         = sum_list (map (\<lambda>c. length (queries_of c)) calls)"
    by (simp add: length_concat comp_def)
  obtain outs w' where bt:
    "tool_executor_batch search (map (invocation_of \<circ> snd) ?ops) w = (outs, w')"
    by (cases "tool_executor_batch search (map (invocation_of \<circ> snd) ?ops) w")
  have wf': "well_formed (tool_calls (AI text calls))" using wf by simp
  have "snd (execute_tools search (conv @ [AIMessage (AI text calls)]) w) = w'"
    using execute_tools_grouped [OF wf', of search w outs w' conv] bt by simp
  moreover have "lookups w' = lookups w @ map tool_input (map invocation_of (map snd ?ops))"
    using batch_props [OF bt] by simp
  moreover have "map tool_input (map invocation_of (map snd ?ops)) = map snd ?ops"
    by (simp add: invocation_of_def comp_def)
  ultimately have c: "lookups (snd (execute_tools search (conv @ [AIMessage (AI text calls)]) w))
         = lookups w @ concat (map queries_of calls)"
    by (simp add: operations_snd)
  from a b c show ?thesis by blast
qed

theorem C6_one_operation_per_query_witness:
  "well_formed [ParsedCall ''AnswerQuestion'' (Args (Some [''a'', ''b''])) ''call_1'',
                ParsedCall ''AnswerQuestion'' (Args (Some [''c''])) ''call_2'']
   \<and> call_loop [ParsedCall ''AnswerQuestion'' (Args (Some [''a'', ''b''])) ''call_1'',
                ParsedCall ''AnswerQuestion'' (Args (Some [''c''])) ''call_2''] ([], [])
       = Inr ([''call_1'', ''call_1'', ''call_2''],
              [invocation_of ''a'', invocation_of ''b'', invocation_of ''c''])"
proof -
  let ?calls = "[ParsedCall ''AnswerQuestion'' (Args (Some [''a'', ''b''])) ''call_1'',
                ParsedCall ''AnswerQuestion'' (Args (Some [''c''])) ''call_2'']"
  have wf: "well_formed ?calls" by (simp add: well_formed_def)
  show ?thesis
    using wf C6_one_operation_per_query [OF wf, of search_echo "[]" "[]" world0]
    by (simp add: queries_of_def numeral_2_eq_2)
qed

text \<open>
  Claim C8, as amended. Whatever the lookups of a batch yield, failures included,
  \<open>execute_tools\<close> returns tool messages and raises nothing, and the output of every
  operation whose (identifier, query string) pair does not occur again later in the batch
  is the entry of its query string in the tool message of its identifier.
\<close>

theorem C8_unrepeated_results_kept:
  assumes wf: "well_formed (tool_calls r)"
    and b: "tool_executor_batch search
              (map (invocation_of \<circ> snd) (operations (tool_calls r))) w = (outs, w')"
  shows "\<exists>msgs. execute_tools search (conv @ [AIMessage r]) w = (Inr msgs, w')
     \<and> length outs = length (operations (tool_calls r))
     \<and> (\<forall>k < length (operations (tool_calls r)).
          (\<forall>j. k < j \<and> j < length (operations (tool_calls r))
                \<longrightarrow> operations (tool_calls r) ! j \<noteq> operations (tool_calls r) ! k)
          \<longrightarrow> (\<exists>d. ToolMessage d (fst (operations (tool_calls r) ! k)) \<in> set msgs
                 \<and> map_of d (snd (operations (tool_calls r) ! k)) = Some (outs ! k)))"
proof -
  let ?ops = "operations (tool_calls r)"
  let ?M = "grouped ?ops outs"
  let ?msgs = "map (\<lambda>(tid, query_outputs). ToolMessage query_outputs tid) ?M"
  have l: "length outs = length ?ops" using batch_props [OF b] by simp
  have ex: "execute_tools search (conv @ [AIMessage r]) w = (Inr ?msgs, w')"
    using execute_tools_grouped [OF wf b] .
  have "\<exists>d. ToolMessage d (fst (?ops ! k)) \<in> set ?msgs
             \<and> map_of d (snd (?ops ! k)) = Some (outs ! k)"
    if k: "k < length ?ops"
      and later: "\<forall>j. k < j \<and> j < length ?ops \<longrightarrow> ?ops ! j \<noteq> ?ops ! k" for k
  proof -
    obtain d where d: "(fst (?ops ! k), d) \<in> set ?M"
      using grouped_has_id [OF l k] by blast
    have "map_of d (snd (?ops ! k)) = Some (outs ! k)"
      using grouped_last [OF l d k _ later] by simp
    with d show ?thesis by (auto simp only: in_tool_messages)
  qed
  with ex l show ?thesis by blast
qed

text \<open>
  The claim as stated fails: the first lookup of "q" under "call_1" succeeds, the second
  lookup of the same query under the same identifier fails, and the tool message holds
  only the failure.
\<close>

theorem C8_repeated_query_counterexample:
  "fst (tool_executor_batch search_flaky [invocation_of ''q'', invocation_of ''q''] world0)
     = [SearchResults [(''https://example.com'', ''q'')], SearchError ''timeout'']
   \<and> fst (execute_tools search_flaky
        [HumanMessage ''task'',
         AIMessage (AI [] [ParsedCall ''AnswerQuestion'' (Args (Some [''q'', ''q''])) ''call_1''])]
        world0)
     = Inr [ToolMessage [(''q'', SearchError ''timeout'')] ''call_1'']"
  by (simp add: execute_tools_def search_flaky_def world0_def invocation_of_def
      getitem_default_def)

theorem C8_unrepeated_results_kept_witness:
  "well_formed (tool_calls (AI [] [ParsedCall ''AnswerQuestion'' (Args (Some [''a'', ''b''])) ''call_1'']))
   \<and> tool_executor_batch search_flaky
        (map (invocation_of \<circ> snd)
           (operations (tool_calls (AI [] [ParsedCall ''AnswerQuestion'' (Args (Some [''a'', ''b''])) ''call_1'']))))
        world0
       = ([SearchResults [(''https://example.com'', ''a'')], SearchError ''timeout''],
          \<lparr>env = 2, completions = [], lookups = [''a'', ''b'']\<rparr>)
   \<and> (0::nat) < length (operations (tool_calls (AI [] [ParsedCall ''AnswerQuestion'' (Args (Some [''a'', ''b''])) ''call_1''])))
   \<and> distinct (operations (tool_calls (AI [] [ParsedCall ''AnswerQuestion'' (Args (Some [''a'', ''b''])) ''call_1''])))
   \<and> (\<exists>msgs d. fst (execute_tools search_flaky
          ([HumanMessage ''task''] @ [AIMessage (AI [] [ParsedCall ''AnswerQuestion'' (Args (Some [''a'', ''b''])) ''call_1''])])
          world0) = Inr msgs
        \<and> ToolMessage d ''call_1'' \<in> set msgs
        \<and> map_of d ''a'' = Some (SearchResults [(''https://example.com'', ''a'')]))"
proof -
  let ?r = "AI [] [ParsedCall ''AnswerQuestion'' (Args (Some [''a'', ''b''])) ''call_1'']"
  let ?outs = "[SearchResults [(''https://example.com'', ''a'')], SearchError ''timeout'']"
  let ?w = "\<lparr>env = 2::nat, completions = [], lookups = [''a'', ''b'']\<rparr>"
  have wf: "well_formed (tool_calls ?r)" by (simp add: well_formed_def)
  have ops: "operations [ParsedCall ''AnswerQuestion'' (Args (Some [''a'', ''b''])) ''call_1'']
      = [(''call_1'', ''a''), (''call_1'', ''b'')]"
    by (simp add: operations_def queries_of_def)
  have b: "tool_executor_batch search_flaky
        (map (invocation_of \<circ> snd) (operations (tool_calls ?r))) world0 = (?outs, ?w)"
    by (simp add: ops search_flaky_def world0_def invocation_of_def)
  have later: "\<forall>j. 0 < j \<and> j < length (operations (tool_calls ?r))
         \<longrightarrow> operations (tool_calls ?r) ! j \<noteq> operations (tool_calls ?r) ! 0"
    by (auto simp: ops less_Suc_eq numeral_2_eq_2)
  have k: "(0::nat) < length (operations (tool_calls ?r))" by (simp add: ops)
  from C8_unrepeated_results_kept [OF wf b, of "[HumanMessage ''task'']"]
  obtain msgs where
    ex: "execute_tools search_flaky ([HumanMessage ''task''] @ [AIMessage ?r]) world0 = (Inr msgs, ?w)"
    and all: "\<forall>k < length (operations (tool_calls ?r)).
          (\<forall>j. k < j \<and> j < length (operations (tool_calls ?r))
                \<longrightarrow> operations (tool_calls ?r) ! j \<noteq> operations (tool_calls ?r) ! k)
          \<longrightarrow> (\<exists>d. ToolMessage d (fst (operations (tool_calls ?r) ! k)) \<in> set msgs
                 \<and> map_of d (snd (operations (tool_calls ?r) ! k)) = Some (?outs ! k))"
    by blast
  from all k later
  have "\<exists>d. ToolMessage d (fst (operations (tool_calls ?r) ! 0)) \<in> set msgs
                 \<and> map_of d (snd (operations (tool_calls ?r) ! 0)) = Some (?outs ! 0)"
    by blast
  then obtain d where "ToolMessage d ''call_1'' \<in> set msgs"
     "map_of d ''a'' = Some (SearchResults [(''https://example.com'', ''a'')])"
    by (auto simp: ops)
  with ex have "\<exists>msgs d. fst (execute_tools search_flaky
          ([HumanMessage ''task''] @ [AIMessage ?r]) world0) = Inr msgs
        \<and> ToolMessage d ''call_1'' \<in> set msgs
        \<and> map_of d ''a'' = Some (SearchResults [(''https://example.com'', ''a'')])"
    by auto
  moreover have "distinct (operations (tool_calls ?r))" by (simp add: ops)
  ultimately show ?thesis using wf b k by blast
qed

text \<open>
  Claim C10. Every occurrence of a query string is looked up on its own (the record of
  outbound lookups grows by all query strings, repetitions included), but the mapping of
  a tool message has pairwise different keys: its number of entries is the number of
  different query strings under its identifier, which is less than the number of
  operations under that identifier when a query string is repeated; and the entry of an
  operation's query string holds the output of the last operation with the same
  identifier and query string.
\<close>

theorem C10_last_occurrence_kept:
  assumes wf: "well_formed (tool_calls r)"
    and b: "tool_executor_batch search
              (map (invocation_of \<circ> snd) (operations (tool_calls r))) w = (outs, w')"
  shows "\<exists>msgs. execute_tools search (conv @ [AIMessage r]) w = (Inr msgs, w')
     \<and> lookups w' = lookups w @ map snd (operations (tool_calls r))
     \<and> length outs = length (operations (tool_calls r))
     \<and> (\<forall>m \<in> set msgs. \<exists>d i. m = ToolMessage d i \<and> distinct (map fst d)
           \<and> length d = card (set (queries_under (tool_calls r) i))
           \<and> length d \<le> length (queries_under (tool_calls r) i)
           \<and> (\<not> distinct (queries_under (tool_calls r) i)
                \<longrightarrow> length d < length (queries_under (tool_calls r) i)))
     \<and> (\<forall>k < length (operations (tool_calls r)). \<forall>d.
          ToolMessage d (fst (operations (tool_calls r) ! k)) \<in> set msgs
          \<longrightarrow> (\<exists>j. k \<le> j \<and> j < length (operations (tool_calls r))
                 \<and> operations (tool_calls r) ! j = operations (tool_calls r) ! k
                 \<and> (\<forall>j'. j < j' \<and> j' < length (operations (tool_calls r))
                       \<longrightarrow> operations (tool_calls r) ! j' \<noteq> operations (tool_calls r) ! k)
                 \<and> map_of d (snd (operations (tool_calls r) ! k)) = Some (outs ! j)))"
proof -
  let ?ops = "operations (tool_calls r)"
  let ?M = "grouped ?ops outs"
  let ?msgs = "map (\<lambda>(tid, query_outputs). ToolMessage query_outputs tid) ?M"
  have l: "length outs = length ?ops" using batch_props [OF b] by simp
  have ex: "execute_tools search (conv @ [AIMessage r]) w = (Inr ?msgs, w')"
    using execute_tools_grouped [OF wf b] .
  have lk: "lookups w' = lookups w @ map snd ?ops"
    using batch_props [OF b] by (simp add: invocation_of_def comp_def)
  have per_msg: "\<forall>m \<in> set ?msgs. \<exists>d i. m = ToolMessage d i \<and> distinct (map fst d)
           \<and> length d = card (set (queries_under (tool_calls r) i))
           \<and> length d \<le> length (queries_under (tool_calls r) i)
           \<and> (\<not> distinct (queries_under (tool_calls r) i)
                \<longrightarrow> length d < length (queries_under (tool_calls r) i))"
  proof
    fix m assume "m \<in> set ?msgs"
    then obtain d i where m: "m = ToolMessage d i" and in_M: "(i, d) \<in> set ?M"
      using tool_messages_of_grouped by blast
    let ?qs = "queries_under (tool_calls r) i"
    have len: "length d = card (set ?qs)" using grouped_length [OF l in_M] .
    have le: "length d \<le> length ?qs" unfolding len by (rule card_length)
    have "\<not> distinct ?qs \<longrightarrow> length d < length ?qs"
    proof
      assume nd: "\<not> distinct ?qs"
      have "card (set ?qs) \<noteq> length ?qs"
        using nd card_distinct [of ?qs] by blast
      with le len show "length d < length ?qs" by simp
    qed
    with m grouped_entry(1) [OF l in_M] len le
    show "\<exists>d i. m = ToolMessage d i \<and> distinct (map fst d)
           \<and> length d = card (set (queries_under (tool_calls r) i))
           \<and> length d \<le> length (queries_under (tool_calls r) i)
           \<and> (\<not> distinct (queries_under (tool_calls r) i)
                \<longrightarrow> length d < length (queries_under (tool_calls r) i))"
      by blast
  qed
  have per_op: "\<exists>j. k \<le> j \<and> j < length ?ops \<and> ?ops ! j = ?ops ! k
                 \<and> (\<forall>j'. j < j' \<and> j' < length ?ops \<longrightarrow> ?ops ! j' \<noteq> ?ops ! k)
                 \<and> map_of d (snd (?ops ! k)) = Some (outs ! j)"
    if k: "k < length ?ops" and d: "ToolMessage d (fst (?ops ! k)) \<in> set ?msgs" for k d
  proof -
    obtain j where j: "k \<le> j" "j < length ?ops" "?ops ! j = ?ops ! k"
      and later: "\<forall>j'. j < j' \<and> j' < length ?ops \<longrightarrow> ?ops ! j' \<noteq> ?ops ! k"
      using last_occurrence_ex [OF k, of "\<lambda>j. ?ops ! j"] by blast
    have in_M: "(fst (?ops ! k), d) \<in> set ?M"
      using d by (simp only: in_tool_messages)
    have e: "?ops ! j = (fst (?ops ! k), snd (?ops ! k))" using j(3) by simp
    have later': "\<forall>j'. j < j' \<and> j' < length ?ops \<longrightarrow> ?ops ! j' \<noteq> ?ops ! j"
      using later j(3) by simp
    have "map_of d (snd (?ops ! k)) = Some (outs ! j)"
      using grouped_last [OF l in_M j(2) e later'] .
    with j later show ?thesis by blast
  qed
  from ex lk l per_msg per_op show ?thesis by blast
qed

theorem C10_last_occurrence_kept_witness:
  "well_formed (tool_calls (AI [] [ParsedCall ''AnswerQuestion'' (Args (Some [''q'', ''q''])) ''call_1'']))
   \<and> tool_executor_batch search_flaky
        (map (invocation_of \<circ> snd)
           (operations (tool_calls (AI [] [ParsedCall ''AnswerQuestion'' (Args (Some [''q'', ''q''])) ''call_1'']))))
        world0
       = ([SearchResults [(''https://example.com'', ''q'')], SearchError ''timeout''],
          \<lparr>env = 2, completions = [], lookups = [''q'', ''q'']\<rparr>)
   \<and> \<not> distinct (queries_under
          (tool_calls (AI [] [ParsedCall ''AnswerQuestion'' (Args (Some [''q'', ''q''])) ''call_1'']))
          ''call_1'')
   \<and> (\<exists>msgs d. fst (execute_tools search_flaky
          ([HumanMessage ''task''] @ [AIMessage (AI [] [ParsedCall ''AnswerQuestion'' (Args (Some [''q'', ''q''])) ''call_1''])])
          world0) = Inr msgs
        \<and> ToolMessage d ''call_1'' \<in> set msgs
        \<and> length d < 2
        \<and> map_of d ''q'' = Some (SearchError ''timeout''))"
proof -
  let ?calls = "[ParsedCall ''AnswerQuestion'' (Args (Some [''q'', ''q''])) ''call_1'']"
  let ?r = "AI [] ?calls"
  let ?outs = "[SearchResults [(''https://example.com'', ''q'')], SearchError ''timeout'']"
  let ?w = "\<lparr>env = 2::nat, completions = [], lookups = [''q'', ''q'']\<rparr>"
  have wf: "well_formed (tool_calls ?r)" by (simp add: well_formed_def)
  have ops: "operations ?calls = [(''call_1'', ''q''), (''call_1'', ''q'')]"
    by (simp add: operations_def queries_of_def)
  have qu: "queries_under ?calls ''call_1'' = [''q'', ''q'']"
    by (simp add: queries_under_def ops)
  have nd: "\<not> distinct (queries_under (tool_calls ?r) ''call_1'')"
    by (simp add: qu)
  have b: "tool_executor_batch search_flaky
        (map (invocation_of \<circ> snd) (operations (tool_calls ?r))) world0 = (?outs, ?w)"
    by (simp add: ops search_flaky_def world0_def invocation_of_def)
  from C10_last_occurrence_kept [OF wf b, of "[HumanMessage ''task'']"]
  obtain msgs where
    ex: "execute_tools search_flaky ([HumanMessage ''task''] @ [AIMessage ?r]) world0 = (Inr msgs, ?w)"
    and per_msg: "\<forall>m \<in> set msgs. \<exists>d i. m = ToolMessage d i \<and> distinct (map fst d)
           \<and> length d = card (set (queries_under (tool_calls ?r) i))
           \<and> length d \<le> length (queries_under (tool_calls ?r) i)
           \<and> (\<not> distinct (queries_under (tool_calls ?r) i)
                \<longrightarrow> length d < length (queries_under (tool_calls ?r) i))"
    and per_op: "\<forall>k < length (operations (tool_calls ?r)). \<forall>d.
          ToolMessage d (fst (operations (tool_calls ?r) ! k)) \<in> set msgs
          \<longrightarrow> (\<exists>j. k \<le> j \<and> j < length (operations (tool_calls ?r))
                 \<and> operations (tool_calls ?r) ! j = operations (tool_calls ?r) ! k
                 \<and> (\<forall>j'. j < j' \<and> j' < length (operations (tool_calls ?r))
                       \<longrightarrow> operations (tool_calls ?r) ! j' \<noteq> operations (tool_calls ?r) ! k)
                 \<and> map_of d (snd (operations (tool_calls ?r) ! k)) = Some (?outs ! j))"
    by blast
  have "execute_tools search_flaky ([HumanMessage ''task''] @ [AIMessage ?r]) world0
      = (Inr [ToolMessage [(''q'', SearchError ''timeout'')] ''call_1''], ?w)"
    by (simp add: execute_tools_def search_flaky_def world0_def getitem_default_def)
  with ex have msgs: "msgs = [ToolMessage [(''q'', SearchError ''timeout'')] ''call_1'']"
    by simp
  let ?d = "[(''q'', SearchError ''timeout'')]"
  have in_msgs: "ToolMessage ?d ''call_1'' \<in> set msgs" by (simp add: msgs)
  from per_msg in_msgs
  have "\<exists>d i. ToolMessage ?d ''call_1'' = ToolMessage d i
           \<and> (\<not> distinct (queries_under (tool_calls ?r) i)
                \<longrightarrow> length d < length (queries_under (tool_calls ?r) i))"
    by blast
  then have short: "length ?d < length (queries_under (tool_calls ?r) ''call_1'')"
    using nd by auto
  have "fst (execute_tools search_flaky ([HumanMessage ''task''] @ [AIMessage ?r]) world0) = Inr msgs
        \<and> ToolMessage ?d ''call_1'' \<in> set msgs
        \<and> length ?d < 2
        \<and> map_of ?d ''q'' = Some (SearchError ''timeout'')"
    using ex in_msgs short by (simp add: qu)
  then have "\<exists>msgs d. fst (execute_tools search_flaky
          ([HumanMessage ''task''] @ [AIMessage ?r]) world0) = Inr msgs
        \<and> ToolMessage d ''call_1'' \<in> set msgs
        \<and> length d < 2
        \<and> map_of d ''q'' = Some (SearchError ''timeout'')"
    by blast
  with wf b nd show ?thesis by blast
qed


section \<open>The retrying responder\<close>


lemma try_body_raise:
  "runnable self messages (env w) = (Inl e, e') \<Longrightarrow>
   try_body self messages response w
     = (Inl e, response, w\<lparr>env := e', completions := completions w @ [messages]\<rparr>)"
  by (simp add: try_body_def runnable_invoke_def)

lemma try_body_invalid:
  "runnable self messages (env w) = (Inr r, e') \<Longrightarrow> validator self r = Some e \<Longrightarrow>
   try_body self messages response w
     = (Inl e, Some (AIMessage r), w\<lparr>env := e', completions := completions w @ [messages]\<rparr>)"
  by (simp add: try_body_def runnable_invoke_def)

lemma try_body_valid:
  "runnable self messages (env w) = (Inr r, e') \<Longrightarrow> validator self r = None \<Longrightarrow>
   try_body self messages response w
     = (Inr (AIMessage r), Some (AIMessage r),
        w\<lparr>env := e', completions := completions w @ [messages]\<rparr>)"
  by (simp add: try_body_def runnable_invoke_def)

lemma try_body_world:
  "try_body self messages response w = (x, response', w') \<Longrightarrow>
   completions w' = completions w @ [messages] \<and> lookups w' = lookups w"
  by (auto simp: try_body_def runnable_invoke_def split: prod.splits sum.splits option.splits)

lemma respond_loop_frame:
  "respond_loop self n state response h w = (res, h', w') \<Longrightarrow>
   (\<exists>hs. h' = h @ hs) \<and>
   (\<exists>calls. completions w' = completions w @ calls \<and> length calls \<le> n) \<and>
   lookups w' = lookups w"
proof (induction n arbitrary: state response h w)
  case 0
  then show ?case by simp
next
  case (Suc n)
  obtain x response1 w1 where t: "try_body self (h ! state) response w = (x, response1, w1)"
    by (cases "try_body self (h ! state) response w")
  note tw = try_body_world [OF t]
  show ?case
  proof (cases x)
    case (Inr r)
    with Suc.prems t tw show ?thesis by auto
  next
    case (Inl e)
    show ?thesis
    proof (cases "is_ValidationError e")
      case False
      with Suc.prems t tw Inl show ?thesis by auto
    next
      case True
      let ?h1 = "h @ [h ! state @ [HumanMessage (repr e)]]"
      have r: "respond_loop self n (length h) response1 ?h1 w1 = (res, h', w')"
        using Suc.prems t Inl True by (simp add: list_add_def)
      from Suc.IH [OF r] obtain hs calls where
        "h' = ?h1 @ hs" "completions w' = completions w1 @ calls" "length calls \<le> n"
        "lookups w' = lookups w1"
        by blast
      with tw have "h' = h @ ([h ! state @ [HumanMessage (repr e)]] @ hs)"
        "completions w' = completions w @ ([h ! state] @ calls)"
        "length ([h ! state] @ calls) \<le> Suc n" "lookups w' = lookups w"
        by simp_all
      then show ?thesis by blast
    qed
  qed
qed

lemma respond_frame:
  assumes "respond self state h w = (res, h', w')"
  shows "\<exists>hs. h' = h @ hs"
    and "\<exists>calls. completions w' = completions w @ calls \<and> length calls \<le> 3"
    and "lookups w' = lookups w"
  using respond_loop_frame [of self 3 state None h w res h' w'] assms
  by (simp_all add: respond_def)

lemma respond_loop_valid:
  assumes "runnable self (h ! state) (env w) = (Inr r, e')" and "validator self r = None"
  shows "respond_loop self (Suc attempts) state response h w
          = (Inr (Some (AIMessage r)), h,
             w\<lparr>env := e', completions := completions w @ [h ! state]\<rparr>)"
  using try_body_valid [OF assms] by simp

lemma respond_loop_invalid:
  assumes "runnable self (h ! state) (env w) = (Inr r, e')"
    and "validator self r = Some (ValidationError d)"
  shows "respond_loop self (Suc attempts) state response h w
          = respond_loop self attempts (length h) (Some (AIMessage r))
              (h @ [h ! state @ [HumanMessage d]])
              (w\<lparr>env := e', completions := completions w @ [h ! state]\<rparr>)"
  using try_body_invalid [OF assms] by (simp add: list_add_def)

lemma respond_loop_raise:
  assumes "runnable self (h ! state) (env w) = (Inl e, e')" and "\<not> is_ValidationError e"
  shows "respond_loop self (Suc attempts) state response h w
          = (Inl e, h, w\<lparr>env := e', completions := completions w @ [h ! state]\<rparr>)"
  using try_body_raise [OF assms(1)] assms(2) by simp



text \<open>
  Claim C3. One call of \<open>respond\<close> calls the generative backend at most three
  times. At any attempt, a response that passes validation is returned at once, with no
  further call. When three attempts in a row return responses that fail validation,
  \<open>respond\<close> returns the third response and raises nothing; the second and third
  call were given the message list extended by the descriptions of the validation
  errors.
\<close>

theorem C3_at_most_three_attempts:
  "(\<exists>calls. completions (snd (snd (respond self state h w))) = completions w @ calls
            \<and> length calls \<le> 3)
   \<and> (runnable self (h ! state) (env w) = (Inr r, e') \<and> validator self r = None \<longrightarrow>
        respond_loop self (Suc attempts) state response h w
          = (Inr (Some (AIMessage r)), h,
             w\<lparr>env := e', completions := completions w @ [h ! state]\<rparr>))
   \<and> (state < length h
        \<and> runnable self (h ! state) (env w) = (Inr r1, e1)
        \<and> validator self r1 = Some (ValidationError d1)
        \<and> runnable self (h ! state @ [HumanMessage d1]) e1 = (Inr r2, e2)
        \<and> validator self r2 = Some (ValidationError d2)
        \<and> runnable self (h ! state @ [HumanMessage d1, HumanMessage d2]) e2 = (Inr r3, e3)
        \<and> validator self r3 = Some (ValidationError d3) \<longrightarrow>
        fst (respond self state h w) = Inr (Some (AIMessage r3))
        \<and> completions (snd (snd (respond self state h w)))
            = completions w @ [h ! state, h ! state @ [HumanMessage d1],
                               h ! state @ [HumanMessage d1, HumanMessage d2]])"
proof -
  obtain res h' w' where r: "respond self state h w = (res, h', w')"
    by (cases "respond self state h w")
  from respond_frame(2) [OF r] r
  have p1: "\<exists>calls. completions (snd (snd (respond self state h w))) = completions w @ calls
            \<and> length calls \<le> 3"
    by simp
  have p2: "runnable self (h ! state) (env w) = (Inr r, e') \<and> validator self r = None \<longrightarrow>
        respond_loop self (Suc attempts) state response h w
          = (Inr (Some (AIMessage r)), h,
             w\<lparr>env := e', completions := completions w @ [h ! state]\<rparr>)"
  proof
    assume "runnable self (h ! state) (env w) = (Inr r, e') \<and> validator self r = None"
    then have a1: "runnable self (h ! state) (env w) = (Inr r, e')"
      and a2: "validator self r = None" by simp_all
    show "respond_loop self (Suc attempts) state response h w
          = (Inr (Some (AIMessage r)), h,
             w\<lparr>env := e', completions := completions w @ [h ! state]\<rparr>)"
      using a1 a2 by (rule respond_loop_valid)
  qed
  have p3: "state < length h
        \<and> runnable self (h ! state) (env w) = (Inr r1, e1)
        \<and> validator self r1 = Some (ValidationError d1)
        \<and> runnable self (h ! state @ [HumanMessage d1]) e1 = (Inr r2, e2)
        \<and> validator self r2 = Some (ValidationError d2)
        \<and> runnable self (h ! state @ [HumanMessage d1, HumanMessage d2]) e2 = (Inr r3, e3)
        \<and> validator self r3 = Some (ValidationError d3) \<longrightarrow>
        fst (respond self state h w) = Inr (Some (AIMessage r3))
        \<and> completions (snd (snd (respond self state h w)))
            = completions w @ [h ! state, h ! state @ [HumanMessage d1],
                               h ! state @ [HumanMessage d1, HumanMessage d2]]"
  proof
    assume a: "state < length h
        \<and> runnable self (h ! state) (env w) = (Inr r1, e1)
        \<and> validator self r1 = Some (ValidationError d1)
        \<and> runnable self (h ! state @ [HumanMessage d1]) e1 = (Inr r2, e2)
        \<and> validator self r2 = Some (ValidationError d2)
        \<and> runnable self (h ! state @ [HumanMessage d1, HumanMessage d2]) e2 = (Inr r3, e3)
        \<and> validator self r3 = Some (ValidationError d3)"
    let ?s = "h ! state"
    let ?h1 = "h @ [?s @ [HumanMessage d1]]"
    let ?w1 = "w\<lparr>env := e1, completions := completions w @ [?s]\<rparr>"
    let ?h2 = "?h1 @ [?s @ [HumanMessage d1, HumanMessage d2]]"
    let ?w2 = "?w1\<lparr>env := e2, completions := completions ?w1 @ [?s @ [HumanMessage d1]]\<rparr>"
    let ?h3 = "?h2 @ [?s @ [HumanMessage d1, HumanMessage d2, HumanMessage d3]]"
    let ?w3 = "?w2\<lparr>env := e3,
                   completions := completions ?w2 @ [?s @ [HumanMessage d1, HumanMessage d2]]\<rparr>"
    have s1: "respond_loop self 3 state None h w
        = respond_loop self 2 (length h) (Some (AIMessage r1)) ?h1 ?w1"
      using a respond_loop_invalid [of self h state w r1 e1 d1 2 None]
      by (simp add: numeral_3_eq_3 numeral_2_eq_2)
    have s2: "respond_loop self 2 (length h) (Some (AIMessage r1)) ?h1 ?w1
        = respond_loop self 1 (length ?h1) (Some (AIMessage r2)) ?h2 ?w2"
      using a respond_loop_invalid [of self ?h1 "length h" ?w1 r2 e2 d2 1 "Some (AIMessage r1)"]
      by (simp add: numeral_2_eq_2)
    have s3: "respond_loop self 1 (length ?h1) (Some (AIMessage r2)) ?h2 ?w2
        = respond_loop self 0 (length ?h2) (Some (AIMessage r3)) ?h3 ?w3"
      using a respond_loop_invalid [of self ?h2 "length ?h1" ?w2 r3 e3 d3 0 "Some (AIMessage r2)"]
      by (simp add: nth_append)
    have "respond self state h w = (Inr (Some (AIMessage r3)), ?h3, ?w3)"
      unfolding respond_def s1 s2 s3 by simp
    then show "fst (respond self state h w) = Inr (Some (AIMessage r3))
        \<and> completions (snd (snd (respond self state h w)))
            = completions w @ [h ! state, h ! state @ [HumanMessage d1],
                               h ! state @ [HumanMessage d1, HumanMessage d2]]"
      by simp
  qed
  show ?thesis by (rule conjI [OF p1 conjI [OF p2 p3]])
qed



theorem C3_at_most_three_attempts_witness:
  "runnable (responder_stub 0) ([[HumanMessage ''task'']] ! 0) (env world0)
     = (Inr valid_response, 1)
   \<and> validator (responder_stub 0) valid_response = None
   \<and> respond_loop (responder_stub 0) (Suc 2) 0 None [[HumanMessage ''task'']] world0
       = (Inr (Some (AIMessage valid_response)), [[HumanMessage ''task'']],
          \<lparr>env = 1, completions = [[HumanMessage ''task'']], lookups = []\<rparr>)
   \<and> (0::nat) < length [[HumanMessage ''task'']]
   \<and> runnable (responder_stub 3) ([[HumanMessage ''task'']] ! 0) (env world0)
       = (Inr invalid_response, 1)
   \<and> validator (responder_stub 3) invalid_response = Some (ValidationError ''field required'')
   \<and> runnable (responder_stub 3)
        ([[HumanMessage ''task'']] ! 0 @ [HumanMessage ''field required'']) 1
       = (Inr invalid_response, 2)
   \<and> runnable (responder_stub 3)
        ([[HumanMessage ''task'']] ! 0
           @ [HumanMessage ''field required'', HumanMessage ''field required'']) 2
       = (Inr invalid_response, 3)
   \<and> fst (respond (responder_stub 3) 0 [[HumanMessage ''task'']] world0)
       = Inr (Some (AIMessage invalid_response))
   \<and> length (completions (snd (snd (respond (responder_stub 3) 0 [[HumanMessage ''task'']] world0))))
       = 3"
proof -
  let ?h = "[[HumanMessage ''task'']]"
  have v0: "runnable (responder_stub 0) (?h ! 0) (env world0) = (Inr valid_response, 1)"
    by (simp add: responder_stub_def runnable_stub_def world0_def)
  have v1: "validator (responder_stub 0) valid_response = None"
    by (simp add: responder_stub_def validator_stub_def valid_response_def well_formed_def)
  have i0: "(0::nat) < length ?h" by simp
  have i1: "runnable (responder_stub 3) (?h ! 0) (env world0) = (Inr invalid_response, 1)"
    by (simp add: responder_stub_def runnable_stub_def world0_def)
  have i2: "validator (responder_stub 3) invalid_response
      = Some (ValidationError ''field required'')"
    by (simp add: responder_stub_def validator_stub_def invalid_response_def well_formed_def)
  have i3: "runnable (responder_stub 3) (?h ! 0 @ [HumanMessage ''field required'']) 1
      = (Inr invalid_response, 2)"
    by (simp add: responder_stub_def runnable_stub_def)
  have i4: "runnable (responder_stub 3)
        (?h ! 0 @ [HumanMessage ''field required'', HumanMessage ''field required'']) 2
      = (Inr invalid_response, 3)"
    by (simp add: responder_stub_def runnable_stub_def)
  note a = C3_at_most_three_attempts [of "responder_stub 0" 0 ?h world0 valid_response 1 2 None]
  note b = C3_at_most_three_attempts [of "responder_stub 3" 0 ?h world0 _ _ _ _
      invalid_response 1 "''field required''" invalid_response 2 "''field required''"
      invalid_response 3 "''field required''"]
  have r0: "respond_loop (responder_stub 0) (Suc 2) 0 None ?h world0
       = (Inr (Some (AIMessage valid_response)), ?h,
          \<lparr>env = 1, completions = [[HumanMessage ''task'']], lookups = []\<rparr>)"
    using a v0 v1 by (simp add: world0_def)
  have r3: "fst (respond (responder_stub 3) 0 ?h world0) = Inr (Some (AIMessage invalid_response))
     \<and> length (completions (snd (snd (respond (responder_stub 3) 0 ?h world0)))) = 3"
    using b i0 i1 i2 i3 i4 by (simp add: world0_def)
  from v0 v1 r0 i0 i1 i2 i3 i4 r3 show ?thesis by simp
qed



lemma respond_two_invalid_then_valid:
  assumes st: "state < length h"
    and a1: "runnable self (h ! state) (env w) = (Inr r1, e1)"
    and v1: "validator self r1 = Some (ValidationError d1)"
    and a2: "runnable self (h ! state @ [HumanMessage d1]) e1 = (Inr r2, e2)"
    and v2: "validator self r2 = Some (ValidationError d2)"
    and a3: "runnable self (h ! state @ [HumanMessage d1, HumanMessage d2]) e2 = (Inr r3, e3)"
    and v3: "validator self r3 = None"
  shows "respond self state h w
     = (Inr (Some (AIMessage r3)),
        h @ [h ! state @ [HumanMessage d1], h ! state @ [HumanMessage d1, HumanMessage d2]],
        w\<lparr>env := e3,
          completions := completions w @ [h ! state, h ! state @ [HumanMessage d1],
                                          h ! state @ [HumanMessage d1, HumanMessage d2]]\<rparr>)"
proof -
  let ?s = "h ! state"
  let ?h1 = "h @ [?s @ [HumanMessage d1]]"
  let ?w1 = "w\<lparr>env := e1, completions := completions w @ [?s]\<rparr>"
  let ?h2 = "?h1 @ [?s @ [HumanMessage d1, HumanMessage d2]]"
  let ?w2 = "?w1\<lparr>env := e2, completions := completions ?w1 @ [?s @ [HumanMessage d1]]\<rparr>"
  have s1: "respond_loop self 3 state None h w
      = respond_loop self 2 (length h) (Some (AIMessage r1)) ?h1 ?w1"
    using respond_loop_invalid [of self h state w r1 e1 d1 2 None] a1 v1
    by (simp add: numeral_3_eq_3 numeral_2_eq_2)
  have s2: "respond_loop self 2 (length h) (Some (AIMessage r1)) ?h1 ?w1
      = respond_loop self 1 (length ?h1) (Some (AIMessage r2)) ?h2 ?w2"
    using respond_loop_invalid [of self ?h1 "length h" ?w1 r2 e2 d2 1 "Some (AIMessage r1)"]
      st a2 v2
    by (simp add: numeral_2_eq_2)
  have s3: "respond_loop self 1 (length ?h1) (Some (AIMessage r2)) ?h2 ?w2
      = (Inr (Some (AIMessage r3)), ?h2,
         ?w2\<lparr>env := e3, completions := completions ?w2 @ [?h2 ! length ?h1]\<rparr>)"
    using respond_loop_valid [of self ?h2 "length ?h1" ?w2 r3 e3 0 "Some (AIMessage r2)"]
      st a3 v3
    by (simp add: nth_append)
  show ?thesis
    unfolding respond_def s1 s2 s3 by (simp add: nth_append)
qed

text \<open>
  Claim C4. Whatever happens in \<open>respond\<close>, every list object that existed before
  the call, the caller's conversation among them, holds after the call what it held
  before: the message describing a validation error goes into a newly allocated list,
  which only the retry is given. When two attempts fail validation and the third
  passes, \<open>respond\<close> returns the third response, the second and third call of the
  backend were given the extended copies, and the conversation of the caller who appends
  the returned message has gained exactly that one message.
\<close>

theorem C4_callers_list_unchanged:
  "(state < length h \<longrightarrow>
      take (length h) (fst (snd (respond self state h w))) = h
      \<and> fst (snd (respond self state h w)) ! state = h ! state)
   \<and> (state < length h
        \<and> runnable self (h ! state) (env w) = (Inr r1, e1)
        \<and> validator self r1 = Some (ValidationError d1)
        \<and> runnable self (h ! state @ [HumanMessage d1]) e1 = (Inr r2, e2)
        \<and> validator self r2 = Some (ValidationError d2)
        \<and> runnable self (h ! state @ [HumanMessage d1, HumanMessage d2]) e2 = (Inr r3, e3)
        \<and> validator self r3 = None \<longrightarrow>
        respond self state h w
          = (Inr (Some (AIMessage r3)),
             h @ [h ! state @ [HumanMessage d1], h ! state @ [HumanMessage d1, HumanMessage d2]],
             w\<lparr>env := e3,
               completions := completions w @ [h ! state, h ! state @ [HumanMessage d1],
                                               h ! state @ [HumanMessage d1, HumanMessage d2]]\<rparr>))
   \<and> (runnable self conv (env w) = (Inr r1, e1)
        \<and> validator self r1 = Some (ValidationError d1)
        \<and> runnable self (conv @ [HumanMessage d1]) e1 = (Inr r2, e2)
        \<and> validator self r2 = Some (ValidationError d2)
        \<and> runnable self (conv @ [HumanMessage d1, HumanMessage d2]) e2 = (Inr r3, e3)
        \<and> validator self r3 = None \<longrightarrow>
        fst (call_respond self conv w) = Inr (conv @ [AIMessage r3]))"
proof -
  have p1: "state < length h \<longrightarrow>
      take (length h) (fst (snd (respond self state h w))) = h
      \<and> fst (snd (respond self state h w)) ! state = h ! state"
  proof
    assume st: "state < length h"
    obtain res h' w' where r: "respond self state h w = (res, h', w')"
      by (cases "respond self state h w")
    from respond_frame(1) [OF r] obtain hs where "h' = h @ hs" by blast
    with r st show "take (length h) (fst (snd (respond self state h w))) = h
      \<and> fst (snd (respond self state h w)) ! state = h ! state"
      by (simp add: nth_append)
  qed
  have p2: "state < length h
        \<and> runnable self (h ! state) (env w) = (Inr r1, e1)
        \<and> validator self r1 = Some (ValidationError d1)
        \<and> runnable self (h ! state @ [HumanMessage d1]) e1 = (Inr r2, e2)
        \<and> validator self r2 = Some (ValidationError d2)
        \<and> runnable self (h ! state @ [HumanMessage d1, HumanMessage d2]) e2 = (Inr r3, e3)
        \<and> validator self r3 = None \<longrightarrow>
        respond self state h w
          = (Inr (Some (AIMessage r3)),
             h @ [h ! state @ [HumanMessage d1], h ! state @ [HumanMessage d1, HumanMessage d2]],
             w\<lparr>env := e3,
               completions := completions w @ [h ! state, h ! state @ [HumanMessage d1],
                                               h ! state @ [HumanMessage d1, HumanMessage d2]]\<rparr>)"
    using respond_two_invalid_then_valid [of state h self w r1 e1 d1 r2 e2 d2 r3 e3]
    by (intro impI) (elim conjE, simp)
  have p3: "runnable self conv (env w) = (Inr r1, e1)
        \<and> validator self r1 = Some (ValidationError d1)
        \<and> runnable self (conv @ [HumanMessage d1]) e1 = (Inr r2, e2)
        \<and> validator self r2 = Some (ValidationError d2)
        \<and> runnable self (conv @ [HumanMessage d1, HumanMessage d2]) e2 = (Inr r3, e3)
        \<and> validator self r3 = None \<longrightarrow>
        fst (call_respond self conv w) = Inr (conv @ [AIMessage r3])"
    using respond_two_invalid_then_valid [of 0 "[conv]" self w r1 e1 d1 r2 e2 d2 r3 e3]
    by (intro impI) (elim conjE, simp add: call_respond_def)
  show ?thesis by (rule conjI [OF p1 conjI [OF p2 p3]])
qed

theorem C4_callers_list_unchanged_witness:
  "(0::nat) < length [[HumanMessage ''task'']]
   \<and> runnable (responder_stub 2) ([[HumanMessage ''task'']] ! 0) (env world0)
       = (Inr invalid_response, 1)
   \<and> validator (responder_stub 2) invalid_response = Some (ValidationError ''field required'')
   \<and> runnable (responder_stub 2)
        ([[HumanMessage ''task'']] ! 0 @ [HumanMessage ''field required'']) 1
       = (Inr invalid_response, 2)
   \<and> runnable (responder_stub 2)
        ([[HumanMessage ''task'']] ! 0
           @ [HumanMessage ''field required'', HumanMessage ''field required'']) 2
       = (Inr valid_response, 3)
   \<and> validator (responder_stub 2) valid_response = None
   \<and> fst (respond (responder_stub 2) 0 [[HumanMessage ''task'']] world0)
       = Inr (Some (AIMessage valid_response))
   \<and> fst (snd (respond (responder_stub 2) 0 [[HumanMessage ''task'']] world0)) ! 0
       = [HumanMessage ''task'']
   \<and> fst (call_respond (responder_stub 2) [HumanMessage ''task''] world0)
       = Inr [HumanMessage ''task'', AIMessage valid_response]"
proof -
  let ?h = "[[HumanMessage ''task'']]"
  have i0: "(0::nat) < length ?h" by simp
  have i1: "runnable (responder_stub 2) (?h ! 0) (env world0) = (Inr invalid_response, 1)"
    by (simp add: responder_stub_def runnable_stub_def world0_def)
  have i2: "validator (responder_stub 2) invalid_response
      = Some (ValidationError ''field required'')"
    by (simp add: responder_stub_def validator_stub_def invalid_response_def well_formed_def)
  have i3: "runnable (responder_stub 2) (?h ! 0 @ [HumanMessage ''field required'']) 1
      = (Inr invalid_response, 2)"
    by (simp add: responder_stub_def runnable_stub_def)
  have i4: "runnable (responder_stub 2)
        (?h ! 0 @ [HumanMessage ''field required'', HumanMessage ''field required'']) 2
      = (Inr valid_response, 3)"
    by (simp add: responder_stub_def runnable_stub_def)
  have i5: "validator (responder_stub 2) valid_response = None"
    by (simp add: responder_stub_def validator_stub_def valid_response_def well_formed_def)
  note t = C4_callers_list_unchanged [of 0 ?h "responder_stub 2" world0
      invalid_response 1 "''field required''" invalid_response 2 "''field required''"
      valid_response 3 "[HumanMessage ''task'']"]
  have r: "fst (respond (responder_stub 2) 0 ?h world0) = Inr (Some (AIMessage valid_response))
     \<and> fst (snd (respond (responder_stub 2) 0 ?h world0)) ! 0 = [HumanMessage ''task'']
     \<and> fst (call_respond (responder_stub 2) [HumanMessage ''task''] world0)
       = Inr [HumanMessage ''task'', AIMessage valid_response]"
    using t i0 i1 i2 i3 i4 i5 by simp
  from i0 i1 i2 i3 i4 i5 r show ?thesis by simp
qed


section \<open>Runs of the graph\<close>


lemma call_respond_raise:
  assumes "runnable self conv (env w) = (Inl e, e')" and "\<not> is_ValidationError e"
  shows "call_respond self conv w
     = (Inl e, w\<lparr>env := e', completions := completions w @ [conv]\<rparr>)"
  using respond_loop_raise [of self "[conv]" 0 w e e' 2 None] assms
  by (simp add: call_respond_def respond_def numeral_3_eq_3)

lemma run_error:
  "n \<noteq> END \<Longrightarrow> graph_step first_responder revisor search n conv w = Inl e \<Longrightarrow>
   run first_responder revisor search (Suc fuel) n conv w = Some (Inl e)"
  by simp

lemma graph_step_Draft_error:
  "fst (call_respond first_responder conv w) = Inl e \<Longrightarrow>
   graph_step first_responder revisor search Draft conv w = Inl e"
  by (cases "call_respond first_responder conv w") (simp add: graph_step_def)

lemma graph_step_Revise_error:
  "fst (call_respond revisor conv w) = Inl e \<Longrightarrow>
   graph_step first_responder revisor search Revise conv w = Inl e"
  by (cases "call_respond revisor conv w") (simp add: graph_step_def)

text \<open>
  Claim C9. At any attempt of \<open>respond\<close>, an exception of the generative backend
  that is not a validation error leaves \<open>respond\<close> at once: it is the result, no
  further call of the backend is made and no list is allocated. A run whose draft or
  revise stage meets such an exception at its first attempt ends with that exception.
\<close>

theorem C9_other_errors_propagate:
  "(runnable self (h ! state) (env w) = (Inl e, e') \<and> \<not> is_ValidationError e \<longrightarrow>
      respond_loop self (Suc attempts) state response h w
        = (Inl e, h, w\<lparr>env := e', completions := completions w @ [h ! state]\<rparr>))
   \<and> (runnable first_responder conv (env w) = (Inl e, e') \<and> \<not> is_ValidationError e \<longrightarrow>
        run first_responder revisor search (Suc fuel) Draft conv w = Some (Inl e))
   \<and> (runnable revisor conv (env w) = (Inl e, e') \<and> \<not> is_ValidationError e \<longrightarrow>
        run first_responder revisor search (Suc fuel) Revise conv w = Some (Inl e))"
proof -
  have p1: "runnable self (h ! state) (env w) = (Inl e, e') \<and> \<not> is_ValidationError e \<longrightarrow>
      respond_loop self (Suc attempts) state response h w
        = (Inl e, h, w\<lparr>env := e', completions := completions w @ [h ! state]\<rparr>)"
    using respond_loop_raise [of self h state w e e' attempts response] by blast
  have p2: "runnable first_responder conv (env w) = (Inl e, e') \<and> \<not> is_ValidationError e \<longrightarrow>
        run first_responder revisor search (Suc fuel) Draft conv w = Some (Inl e)"
  proof
    assume a: "runnable first_responder conv (env w) = (Inl e, e') \<and> \<not> is_ValidationError e"
    then have "fst (call_respond first_responder conv w) = Inl e"
      using call_respond_raise [of first_responder conv w e e'] by simp
    then have "graph_step first_responder revisor search Draft conv w = Inl e"
      by (rule graph_step_Draft_error)
    then show "run first_responder revisor search (Suc fuel) Draft conv w = Some (Inl e)"
      by (simp add: run_error)
  qed
  have p3: "runnable revisor conv (env w) = (Inl e, e') \<and> \<not> is_ValidationError e \<longrightarrow>
        run first_responder revisor search (Suc fuel) Revise conv w = Some (Inl e)"
  proof
    assume a: "runnable revisor conv (env w) = (Inl e, e') \<and> \<not> is_ValidationError e"
    then have "fst (call_respond revisor conv w) = Inl e"
      using call_respond_raise [of revisor conv w e e'] by simp
    then have "graph_step first_responder revisor search Revise conv w = Inl e"
      by (rule graph_step_Revise_error)
    then show "run first_responder revisor search (Suc fuel) Revise conv w = Some (Inl e)"
      by (simp add: run_error)
  qed
  show ?thesis by (rule conjI [OF p1 conjI [OF p2 p3]])
qed

theorem C9_other_errors_propagate_witness:
  "runnable responder_raising ([[HumanMessage ''task'']] ! 0) (env world0)
     = (Inl (OtherException ''RateLimitError''), 1)
   \<and> \<not> is_ValidationError (OtherException ''RateLimitError'')
   \<and> respond_loop responder_raising (Suc 2) 0 None [[HumanMessage ''task'']] world0
       = (Inl (OtherException ''RateLimitError''), [[HumanMessage ''task'']],
          \<lparr>env = 1, completions = [[HumanMessage ''task'']], lookups = []\<rparr>)
   \<and> runnable responder_raising [HumanMessage ''task''] (env world0)
     = (Inl (OtherException ''RateLimitError''), 1)
   \<and> run responder_raising (responder_stub 0) search_echo (Suc 10) Draft
        [HumanMessage ''task''] world0 = Some (Inl (OtherException ''RateLimitError''))
   \<and> run (responder_stub 0) responder_raising search_echo (Suc 10) Revise
        [HumanMessage ''task''] world0 = Some (Inl (OtherException ''RateLimitError''))"
proof -
  let ?h = "[[HumanMessage ''task'']]"
  let ?e = "OtherException ''RateLimitError''"
  have a: "runnable responder_raising (?h ! 0) (env world0) = (Inl ?e, 1)"
    by (simp add: responder_raising_def runnable_raising_def world0_def)
  have a': "runnable responder_raising [HumanMessage ''task''] (env world0) = (Inl ?e, 1)"
    using a by simp
  have b: "\<not> is_ValidationError ?e" by simp
  note t1 = C9_other_errors_propagate [of responder_raising ?h 0 world0 ?e 1 2 None
      responder_raising "[HumanMessage ''task'']" "responder_stub 0" search_echo 10]
  note t2 = C9_other_errors_propagate [of responder_raising ?h 0 world0 ?e 1 2 None
      "responder_stub 0" "[HumanMessage ''task'']" responder_raising search_echo 10]
  have r1: "respond_loop responder_raising (Suc 2) 0 None ?h world0
       = (Inl ?e, ?h, \<lparr>env = 1, completions = [[HumanMessage ''task'']], lookups = []\<rparr>)"
    using t1 a b by (simp add: world0_def)
  have r2: "run responder_raising (responder_stub 0) search_echo (Suc 10) Draft
        [HumanMessage ''task''] world0 = Some (Inl ?e)"
    using t1 a' b by blast
  have r3: "run (responder_stub 0) responder_raising search_echo (Suc 10) Revise
        [HumanMessage ''task''] world0 = Some (Inl ?e)"
    using t2 a' b by blast
  from a a' b r1 r2 r3 show ?thesis by blast
qed














text \<open>
  The run shown in the notebook: with one tool call of one query per answer, END is
  reached after seven transitions (draft, then three rounds of tool execution and
  revision) and not before.
\<close>

lemma run_notebook_trace:
  "map_option (map_sum id fst)
     (run (responder_stub 0) (responder_stub 0) search_echo 7 Draft [HumanMessage ''task''] world0)
     = Some (Inr [HumanMessage ''task'',
          AIMessage valid_response,
          ToolMessage [(''q'', SearchResults [(''https://example.com'', ''q'')])] ''call_1'',
          AIMessage valid_response,
          ToolMessage [(''q'', SearchResults [(''https://example.com'', ''q'')])] ''call_1'',
          AIMessage valid_response,
          ToolMessage [(''q'', SearchResults [(''https://example.com'', ''q'')])] ''call_1'',
          AIMessage valid_response])
   \<and> run (responder_stub 0) (responder_stub 0) search_echo 6 Draft [HumanMessage ''task''] world0
     = None"
  by (simp add: eval_nat_numeral graph_step_def call_respond_def respond_def try_body_def
      runnable_invoke_def responder_stub_def runnable_stub_def validator_stub_def
      valid_response_def well_formed_def execute_tools_def search_echo_def world0_def
      getitem_default_def event_loop_def get_num_iterations_def MAX_ITERATIONS_def)






section \<open>Schema validation\<close>

lemma conforms_Str_taken: "conforms Str j = taken_as_str j"
  by (cases j) (simp_all add: taken_as_str_def)

lemma list_all_conforms_Str: "list_all (conforms Str) xs = list_all taken_as_str xs"
  by (induction xs) (simp_all add: conforms_Str_taken del: conforms.simps)

lemma conforms_ListOf_Str:
  "conforms (ListOf Str) v = (\<exists>xs. v = JArr xs \<and> list_all taken_as_str xs)"
  by (cases v) (simp_all add: list_all_conforms_Str del: conforms.simps(1))

lemma conforms_Model_obj:
  "conforms (Model declared) (JObj kvs)
     = list_all (\<lambda>(name, t). case getitem kvs name of
                                 None \<Rightarrow> False
                               | Some v \<Rightarrow> conforms t v) declared"
  by simp

lemma conforms_strings: "list_all (conforms Str) (map JStr qs)"
  by (induction qs) simp_all

lemma validate_AnswerQuestion_iff:
  "(validate AnswerQuestion kvs = None)
     = (\<exists>ans r xs. getitem kvs ''answer'' = Some ans \<and> taken_as_str ans
          \<and> getitem kvs ''reflection'' = Some r \<and> conforms (Model Reflection) r
          \<and> getitem kvs ''search_queries'' = Some (JArr xs) \<and> list_all taken_as_str xs)"
  by (auto simp add: validate_def AnswerQuestion_def conforms_Model_obj conforms_Str_taken
      conforms_ListOf_Str simp del: conforms.simps split: option.splits)

lemma validate_ReviseAnswer_iff:
  "(validate ReviseAnswer kvs = None)
     = (\<exists>ans r xs ys. getitem kvs ''answer'' = Some ans \<and> taken_as_str ans
          \<and> getitem kvs ''reflection'' = Some r \<and> conforms (Model Reflection) r
          \<and> getitem kvs ''search_queries'' = Some (JArr xs) \<and> list_all taken_as_str xs
          \<and> getitem kvs ''references'' = Some (JArr ys) \<and> list_all taken_as_str ys)"
  by (auto simp add: validate_def ReviseAnswer_def AnswerQuestion_def conforms_Model_obj
      conforms_Str_taken conforms_ListOf_Str simp del: conforms.simps split: option.splits)

lemma validate_answer_candidate:
  "validate AnswerQuestion (answer_candidate a m s qs) = None"
  by (simp add: validate_def AnswerQuestion_def Reflection_def answer_candidate_def
      getitem_def conforms_strings)

lemma validate_revise_candidate:
  "validate ReviseAnswer
     (answer_candidate a m s qs @ [(''references'', JArr (map JStr refs))]) = None"
  by (simp add: validate_def ReviseAnswer_def AnswerQuestion_def Reflection_def
      answer_candidate_def getitem_def conforms_strings)

lemma validate_not_None:
  "validate cls kvs \<noteq> None \<Longrightarrow> validate cls kvs = Some (ValidationError ''validation error'')"
  by (simp add: validate_def split: if_splits)

lemma validator_AnswerQuestion_obj:
  "validator_AnswerQuestion [JsonCall ''AnswerQuestion'' (JObj kvs)] = validate AnswerQuestion kvs"
  by (simp add: validator_AnswerQuestion_def parse_call_def split: option.splits)

lemma revision_validator_obj:
  "revision_validator [JsonCall ''ReviseAnswer'' (JObj kvs)] = validate ReviseAnswer kvs"
  by (simp add: revision_validator_def parse_call_def split: option.splits)

text \<open>
  Arguments that are not an object and an unknown tool name are answered with exceptions
  that are not validation errors; a response without tool calls passes.
\<close>

lemma validator_other_exceptions:
  "validator_AnswerQuestion [JsonCall ''AnswerQuestion'' (JStr ''text'')]
     = Some (ValueError ''Tool arguments must be specified as a dict'')
   \<and> validator_AnswerQuestion [JsonCall ''Search'' (JObj (answer_candidate a m s qs))]
     = Some (KeyError ''Search'')
   \<and> validator_AnswerQuestion [] = None"
  by (simp add: validator_AnswerQuestion_def parse_call_def)

text \<open>
  Claim C7, as amended. The validators accept a tool call whose arguments are an object
  with the answer and reflection as strings and the search queries (and references) as a
  list of strings of any length, the empty list and lists of more than three entries
  included. They accept an object exactly when its declared fields validate; for the
  key "search_queries" that is: it is present and holds a list, of any length, whose
  entries are strings, numbers or booleans (the latter two are converted to strings).
  An object without such a list is answered with a validation error.
\<close>

theorem C7_any_number_of_queries:
  "validator_AnswerQuestion
     [JsonCall ''AnswerQuestion'' (JObj (answer_candidate a m s qs))] = None
   \<and> revision_validator
       [JsonCall ''ReviseAnswer''
          (JObj (answer_candidate a m s qs @ [(''references'', JArr (map JStr refs))]))] = None
   \<and> (validator_AnswerQuestion [JsonCall ''AnswerQuestion'' (JObj kvs)] = None)
       = (\<exists>ans r xs. getitem kvs ''answer'' = Some ans \<and> taken_as_str ans
            \<and> getitem kvs ''reflection'' = Some r \<and> conforms (Model Reflection) r
            \<and> getitem kvs ''search_queries'' = Some (JArr xs) \<and> list_all taken_as_str xs)
   \<and> (revision_validator [JsonCall ''ReviseAnswer'' (JObj kvs')] = None)
       = (\<exists>ans r xs ys. getitem kvs' ''answer'' = Some ans \<and> taken_as_str ans
            \<and> getitem kvs' ''reflection'' = Some r \<and> conforms (Model Reflection) r
            \<and> getitem kvs' ''search_queries'' = Some (JArr xs) \<and> list_all taken_as_str xs
            \<and> getitem kvs' ''references'' = Some (JArr ys) \<and> list_all taken_as_str ys)
   \<and> (\<not> (\<exists>xs. getitem kvs'' ''search_queries'' = Some (JArr xs) \<and> list_all taken_as_str xs)
        \<longrightarrow> validator_AnswerQuestion [JsonCall ''AnswerQuestion'' (JObj kvs'')]
              = Some (ValidationError ''validation error'')
            \<and> revision_validator [JsonCall ''ReviseAnswer'' (JObj kvs'')]
              = Some (ValidationError ''validation error''))"
proof -
  have p1: "validator_AnswerQuestion
     [JsonCall ''AnswerQuestion'' (JObj (answer_candidate a m s qs))] = None"
    by (simp only: validator_AnswerQuestion_obj validate_answer_candidate)
  have p2: "revision_validator
       [JsonCall ''ReviseAnswer''
          (JObj (answer_candidate a m s qs @ [(''references'', JArr (map JStr refs))]))] = None"
    by (simp only: revision_validator_obj validate_revise_candidate)
  have p3: "(validator_AnswerQuestion [JsonCall ''AnswerQuestion'' (JObj kvs)] = None)
       = (\<exists>ans r xs. getitem kvs ''answer'' = Some ans \<and> taken_as_str ans
            \<and> getitem kvs ''reflection'' = Some r \<and> conforms (Model Reflection) r
            \<and> getitem kvs ''search_queries'' = Some (JArr xs) \<and> list_all taken_as_str xs)"
    by (simp only: validator_AnswerQuestion_obj validate_AnswerQuestion_iff)
  have p4: "(revision_validator [JsonCall ''ReviseAnswer'' (JObj kvs')] = None)
       = (\<exists>ans r xs ys. getitem kvs' ''answer'' = Some ans \<and> taken_as_str ans
            \<and> getitem kvs' ''reflection'' = Some r \<and> conforms (Model Reflection) r
            \<and> getitem kvs' ''search_queries'' = Some (JArr xs) \<and> list_all taken_as_str xs
            \<and> getitem kvs' ''references'' = Some (JArr ys) \<and> list_all taken_as_str ys)"
    by (simp only: revision_validator_obj validate_ReviseAnswer_iff)
  have p5: "\<not> (\<exists>xs. getitem kvs'' ''search_queries'' = Some (JArr xs) \<and> list_all taken_as_str xs)
        \<longrightarrow> validator_AnswerQuestion [JsonCall ''AnswerQuestion'' (JObj kvs'')]
              = Some (ValidationError ''validation error'')
            \<and> revision_validator [JsonCall ''ReviseAnswer'' (JObj kvs'')]
              = Some (ValidationError ''validation error'')"
  proof
    assume n: "\<not> (\<exists>xs. getitem kvs'' ''search_queries'' = Some (JArr xs)
        \<and> list_all taken_as_str xs)"
    have "validate AnswerQuestion kvs'' \<noteq> None"
      using n by (simp only: validate_AnswerQuestion_iff) blast
    then have va: "validate AnswerQuestion kvs'' = Some (ValidationError ''validation error'')"
      by (rule validate_not_None)
    have "validate ReviseAnswer kvs'' \<noteq> None"
      using n by (simp only: validate_ReviseAnswer_iff) blast
    then have vr: "validate ReviseAnswer kvs'' = Some (ValidationError ''validation error'')"
      by (rule validate_not_None)
    from va vr show "validator_AnswerQuestion [JsonCall ''AnswerQuestion'' (JObj kvs'')]
              = Some (ValidationError ''validation error'')
            \<and> revision_validator [JsonCall ''ReviseAnswer'' (JObj kvs'')]
              = Some (ValidationError ''validation error'')"
      by (simp only: validator_AnswerQuestion_obj revision_validator_obj)
  qed
  show ?thesis by (rule conjI [OF p1 conjI [OF p2 conjI [OF p3 conjI [OF p4 p5]]]])
qed

theorem C7_any_number_of_queries_witness:
  "validator_AnswerQuestion
     [JsonCall ''AnswerQuestion'' (JObj (answer_candidate ''text'' ''none'' ''none'' []))] = None
   \<and> revision_validator
       [JsonCall ''ReviseAnswer''
          (JObj (answer_candidate ''text'' ''none'' ''none'' [''q1'', ''q2'', ''q3'', ''q4'']
                   @ [(''references'', JArr (map JStr []))]))] = None
   \<and> \<not> (\<exists>xs. getitem [(''answer'', JStr ''text'')] ''search_queries'' = Some (JArr xs)
            \<and> list_all taken_as_str xs)
   \<and> validator_AnswerQuestion [JsonCall ''AnswerQuestion'' (JObj [(''answer'', JStr ''text'')])]
       = Some (ValidationError ''validation error'')
   \<and> revision_validator [JsonCall ''ReviseAnswer'' (JObj [(''answer'', JStr ''text'')])]
       = Some (ValidationError ''validation error'')"
proof -
  have n: "\<not> (\<exists>xs. getitem [(''answer'', JStr ''text'')] ''search_queries'' = Some (JArr xs)
            \<and> list_all taken_as_str xs)"
    by (simp add: getitem_def)
  note t1 = C7_any_number_of_queries [of "''text''" "''none''" "''none''" "[]" "[]"
      "[]" "[]" "[(''answer'', JStr ''text'')]"]
  note t2 = C7_any_number_of_queries [of "''text''" "''none''" "''none''"
      "[''q1'', ''q2'', ''q3'', ''q4'']" "[]" "[]" "[]" "[(''answer'', JStr ''text'')]"]
  from t1 have a: "validator_AnswerQuestion
     [JsonCall ''AnswerQuestion'' (JObj (answer_candidate ''text'' ''none'' ''none'' []))] = None"
    by (rule conjunct1)
  from t2 have b: "revision_validator
       [JsonCall ''ReviseAnswer''
          (JObj (answer_candidate ''text'' ''none'' ''none'' [''q1'', ''q2'', ''q3'', ''q4'']
                   @ [(''references'', JArr (map JStr []))]))] = None"
    by (rule conjunct1 [OF conjunct2])
  from t1 n have c: "validator_AnswerQuestion
       [JsonCall ''AnswerQuestion'' (JObj [(''answer'', JStr ''text'')])]
       = Some (ValidationError ''validation error'')
     \<and> revision_validator [JsonCall ''ReviseAnswer'' (JObj [(''answer'', JStr ''text'')])]
       = Some (ValidationError ''validation error'')"
    by blast
  from a b n c show ?thesis by blast
qed

text \<open>
  The claim as stated fails: tool calls with no search query and with four search queries
  pass both validators.
\<close>

theorem C7_length_not_checked_counterexample:
  "validator_AnswerQuestion
     [JsonCall ''AnswerQuestion'' (JObj (answer_candidate ''text'' ''none'' ''none'' []))] = None
   \<and> validator_AnswerQuestion
       [JsonCall ''AnswerQuestion''
          (JObj (answer_candidate ''text'' ''none'' ''none'' [''q1'', ''q2'', ''q3'', ''q4'']))]
       = None
   \<and> revision_validator
       [JsonCall ''ReviseAnswer''
          (JObj (answer_candidate ''text'' ''none'' ''none'' [] @ [(''references'', JArr [])]))]
       = None
   \<and> revision_validator
       [JsonCall ''ReviseAnswer''
          (JObj (answer_candidate ''text'' ''none'' ''none'' [''q1'', ''q2'', ''q3'', ''q4'']
                   @ [(''references'', JArr [])]))]
       = None"
  by (simp add: validator_AnswerQuestion_def revision_validator_def parse_call_def validate_def
      ReviseAnswer_def AnswerQuestion_def Reflection_def answer_candidate_def getitem_def)

end
